theory Spec2Isabelle
  imports Main "HOL-Library.AList"
begin

section \<open>JavaScript values and objects\<close>

text \<open>
  The converter is a Node script (\<^verbatim>\<open>convertGedcom.js\<close>; the version with the
  \<^verbatim>\<open>EXTRA_TABLE_PARSERS\<close> is the one modelled). Its cells hold a string, \<^verbatim>\<open>null\<close> or
  \<^verbatim>\<open>undefined\<close>.
\<close>

datatype jsval = Undefined | Null | Str string

datatype error = TypeError

text \<open>
  Every dictionary of the script (\<^verbatim>\<open>tables\<close>, \<^verbatim>\<open>promotedValueTables\<close>, the \<^verbatim>\<open>rows\<close> of a
  promoted-value table, a row under construction, \<^verbatim>\<open>LINK_ATTRIBUTES\<close>, \<^verbatim>\<open>PROMOTED_VALUES\<close>)
  is a plain object literal, so a read \<^verbatim>\<open>obj[key]\<close> that finds no own property goes on to
  \<^verbatim>\<open>Object.prototype\<close>. Own properties are an association list in insertion order; the
  members of \<^verbatim>\<open>Object.prototype\<close> are listed with the string that \<^verbatim>\<open>String(member)\<close> gives
  in Node. Each of them is truthy, none has a property \<^verbatim>\<open>id\<close>, \<^verbatim>\<open>rows\<close>, \<^verbatim>\<open>columns\<close>
  or \<^verbatim>\<open>has\<close>.
\<close>

definition objectPrototype :: "(string \<times> string) list" where
  "objectPrototype =
    [(''constructor'', ''function Object() { [native code] }''),
     (''__defineGetter__'', ''function __defineGetter__() { [native code] }''),
     (''__defineSetter__'', ''function __defineSetter__() { [native code] }''),
     (''hasOwnProperty'', ''function hasOwnProperty() { [native code] }''),
     (''__lookupGetter__'', ''function __lookupGetter__() { [native code] }''),
     (''__lookupSetter__'', ''function __lookupSetter__() { [native code] }''),
     (''isPrototypeOf'', ''function isPrototypeOf() { [native code] }''),
     (''propertyIsEnumerable'', ''function propertyIsEnumerable() { [native code] }''),
     (''toString'', ''function toString() { [native code] }''),
     (''valueOf'', ''function valueOf() { [native code] }''),
     (''__proto__'', ''[object Object]''),
     (''toLocaleString'', ''function toLocaleString() { [native code] }'')]"

definition inherited :: "string \<Rightarrow> bool" where
  "inherited k \<longleftrightarrow> k \<in> set (map fst objectPrototype)"

text \<open>\<^verbatim>\<open>obj[k]\<close> used as a condition, for an object whose own values are all truthy.\<close>

definition truthyAt :: "(string \<times> 'a) list \<Rightarrow> string \<Rightarrow> bool" where
  "truthyAt obj k \<longleftrightarrow> map_of obj k \<noteq> None \<or> inherited k"

type_synonym row = "(string \<times> jsval) list"

text \<open>\<^verbatim>\<open>record[column] !== undefined\<close>\<close>

definition definedAt :: "row \<Rightarrow> string \<Rightarrow> bool" where
  "definedAt r k = (case map_of r k of Some v \<Rightarrow> v \<noteq> Undefined | None \<Rightarrow> inherited k)"

text \<open>\<^verbatim>\<open>if (record.WIFE)\<close>: a cell is truthy when it is a non-empty string.\<close>

definition truthyCell :: "row \<Rightarrow> string \<Rightarrow> bool" where
  "truthyCell r k =
     (case map_of r k of
        Some v \<Rightarrow> (case v of Str s \<Rightarrow> s \<noteq> [] | _ \<Rightarrow> False)
      | None \<Rightarrow> inherited k)"

definition cell :: "row \<Rightarrow> string \<Rightarrow> jsval" where
  "cell r k = (case map_of r k of Some v \<Rightarrow> v | None \<Rightarrow> Undefined)"

text \<open>A \<^verbatim>\<open>Set\<close> of column names keeps insertion order and ignores a repeated \<^verbatim>\<open>add\<close>.\<close>

definition setAdd :: "string \<Rightarrow> string list \<Rightarrow> string list" where
  "setAdd c cs = (if c \<in> set cs then cs else cs @ [c])"

definition newSet :: "string list \<Rightarrow> string list" where
  "newSet xs = foldl (\<lambda>cs c. setAdd c cs) [] xs"

subsection \<open>Numbers in template literals\<close>

definition digitChar :: "nat \<Rightarrow> char" where
  "digitChar d = ''0123456789'' ! d"

function showNat :: "nat \<Rightarrow> string" where
  "showNat n = (if n < 10 then [digitChar n] else showNat (n div 10) @ [digitChar (n mod 10)])"
  by pat_completeness auto
termination
  by (relation "measure id") auto

declare showNat.simps [simp del]

definition digitVal :: "char \<Rightarrow> nat" where
  "digitVal c =
     (case map_of (zip ''0123456789'' [0, 1, 2, 3, 4, 5, 6, 7, 8, 9]) c of
        Some d \<Rightarrow> d
      | None \<Rightarrow> 0)"

definition readNat :: "string \<Rightarrow> nat" where
  "readNat s = foldl (\<lambda>acc c. 10 * acc + digitVal c) 0 s"

subsection \<open>Property order of an object\<close>

text \<open>
  \<^verbatim>\<open>Object.keys\<close>, \<^verbatim>\<open>Object.values\<close> and \<^verbatim>\<open>Object.entries\<close> list the own properties whose
  key is an array index (a canonical decimal numeral below \<open>2^32 - 1\<close>) first, in ascending
  numeric order, then the other keys in insertion order.
\<close>

definition isArrayIndex :: "string \<Rightarrow> bool" where
  "isArrayIndex k \<longleftrightarrow> showNat (readNat k) = k \<and> readNat k < 4294967295"

definition objectEntries :: "(string \<times> 'a) list \<Rightarrow> (string \<times> 'a) list" where
  "objectEntries obj =
     sort_key (\<lambda>kv. readNat (fst kv)) (filter (\<lambda>kv. isArrayIndex (fst kv)) obj)
     @ filter (\<lambda>kv. \<not> isArrayIndex (fst kv)) obj"

definition objectValues :: "(string \<times> 'a) list \<Rightarrow> 'a list" where
  "objectValues obj = map snd (objectEntries obj)"

section \<open>Input nodes, options and the host\<close>

text \<open>
  A node of the tree that \<^verbatim>\<open>read-gedcom\<close> returns: \<^verbatim>\<open>tag\<close>, \<^verbatim>\<open>pointer\<close> (a string or
  \<^verbatim>\<open>null\<close>), \<^verbatim>\<open>value\<close> (a string or \<^verbatim>\<open>null\<close>) and \<^verbatim>\<open>children\<close>.
\<close>

datatype node = Node (tag: string) (pointer: "string option") (nvalue: "string option")
  (children: "node list")

text \<open>The tags that occur in a node, its own first, at any depth.\<close>

fun tagsOf :: "node \<Rightarrow> string list" where
  "tagsOf (Node t p v cs) = t # concat (map tagsOf cs)"

text \<open>
  The command line (\<^verbatim>\<open>args\<close>) and the two services of the JavaScript host that the
  script calls and that are not part of the repository: \<^verbatim>\<open>new Date(string)\<close>, whose
  result for anything but the ISO format is implementation-defined (\<open>None\<close> is the invalid
  date, otherwise the milliseconds since the epoch), and \<^verbatim>\<open>String.prototype.split\<close> with a
  regular expression, given here the source text of the expression.
\<close>

record env =
  force_date_parsing :: "string list option"
  parents_table :: bool
  copy_individual_names :: bool
  newDate :: "string \<Rightarrow> int option"
  regexSplit :: "string \<Rightarrow> string \<Rightarrow> string list"

definition ofValue :: "string option \<Rightarrow> jsval" where
  "ofValue v = (case v of None \<Rightarrow> Null | Some s \<Rightarrow> Str s)"

text \<open>\<^verbatim>\<open>String(v)\<close> for a node's value, as a property key.\<close>

definition keyOf :: "string option \<Rightarrow> string" where
  "keyOf v = (case v of None \<Rightarrow> ''null'' | Some s \<Rightarrow> s)"

section \<open>The value formatter\<close>

text \<open>
  \<^verbatim>\<open>FORCE_DATE_REGEX\<close> is built from a template literal:
  \<^verbatim>\<open>new RegExp(delimiters.map((d) => `(?:\s*${d}\s*)`).join('|'), 'gi')\<close>.
  In a template literal that is not tagged, the escape \<^verbatim>\<open>\s\<close> is the letter \<^verbatim>\<open>s\<close>, so
  the text handed to \<^verbatim>\<open>RegExp\<close> is \<^verbatim>\<open>(?:s*\<close>, the delimiter, \<^verbatim>\<open>s*)\<close>.
\<close>

fun joinWith :: "string \<Rightarrow> string list \<Rightarrow> string" where
  "joinWith sep [] = []"
| "joinWith sep [x] = x"
| "joinWith sep (x # y # ys) = x @ sep @ joinWith sep (y # ys)"

definition FORCE_DATE_REGEX :: "string list \<Rightarrow> string" where
  "FORCE_DATE_REGEX delimiters =
     joinWith ''|'' (map (\<lambda>delimiter. ''(?:s*'' @ delimiter @ ''s*)'') delimiters)"

text \<open>
  \<^verbatim>\<open>new Date(ms).toISOString().split('T')[0]\<close>: the civil date, in UTC, of a time value.
  Years outside 0..9999 are written with a sign and six digits.
\<close>

definition pad :: "nat \<Rightarrow> string \<Rightarrow> string" where
  "pad w s = replicate (w - length s) CHR ''0'' @ s"

definition yearOfEra :: "int \<Rightarrow> int" where
  "yearOfEra doe = (doe - doe div 1460 + doe div 36524 - doe div 146096) div 365"

definition civilOfMonth :: "int \<Rightarrow> int \<Rightarrow> int \<Rightarrow> int \<times> int \<times> int" where
  "civilOfMonth y doy mp =
     (if mp < 10 then (y, mp + 3, doy - (153 * mp + 2) div 5 + 1)
      else (y + 1, mp - 9, doy - (153 * mp + 2) div 5 + 1))"

definition civilOfYear :: "int \<Rightarrow> int \<Rightarrow> int \<times> int \<times> int" where
  "civilOfYear y doy = civilOfMonth y doy ((5 * doy + 2) div 153)"

definition civilOfEra :: "int \<Rightarrow> int \<Rightarrow> int \<times> int \<times> int" where
  "civilOfEra era doe =
     civilOfYear (yearOfEra doe + era * 400)
       (doe - (365 * yearOfEra doe + yearOfEra doe div 4 - yearOfEra doe div 100))"

text \<open>
  The year (March-based inside the computation), month and day of a day number counted from
  1970-01-01, in the proleptic Gregorian calendar: eras of 400 years (146097 days), the
  year of the era, the day of that year, the month.
\<close>

definition civil :: "int \<Rightarrow> int \<times> int \<times> int" where
  "civil days = civilOfEra ((days + 719468) div 146097) ((days + 719468) mod 146097)"

definition isoYear :: "int \<Rightarrow> string" where
  "isoYear y =
     (if 0 \<le> y \<and> y \<le> 9999 then pad 4 (showNat (nat y))
      else (if y < 0 then ''-'' else ''+'') @ pad 6 (showNat (nat \<bar>y\<bar>)))"

definition isoDate :: "int \<Rightarrow> string" where
  "isoDate ms =
     (case civil (ms div 86400000) of
        (y, m, d) \<Rightarrow> isoYear y @ ''-'' @ pad 2 (showNat (nat m)) @ ''-'' @ pad 2 (showNat (nat d)))"

text \<open>
  \<^verbatim>\<open>numbers.reduce((agg, value) => agg + value, 0) / numbers.length\<close> is computed in
  double precision. A time value is an integer of size at most \<open>8.64 * 10^15\<close>, below
  \<open>2^53\<close>, so it is a double. The sum of two doubles that are integers is the integer
  nearest to the exact sum among the doubles: beyond 53 bits the last bits are rounded, a tie
  going to the even significand. The quotient by the number of fragments is the double
  nearest to the exact quotient, and \<^verbatim>\<open>new Date(mean)\<close> cuts it towards zero.

  \<open>bitLength n\<close> is the number of binary digits of \<open>n\<close>; \<open>roundHalfEven x d\<close> the integer
  nearest to \<open>x / d\<close>, the even one on a tie; \<open>toDouble s\<close> the double nearest to the
  integer \<open>s\<close>; \<open>truncQuotient a n\<close>, for \<open>a \<ge> 0\<close> and \<open>n > 0\<close>, the integer part of the
  double nearest to \<open>a / n\<close>: that double has a significand of 53 bits, so it is a multiple of
  \<open>2^(b - 53)\<close> where \<open>b\<close> is the bit length of the integer part of \<open>a / n\<close>.
\<close>

function bitLength :: "nat \<Rightarrow> nat" where
  "bitLength n = (if n = 0 then 0 else bitLength (n div 2) + 1)"
  by pat_completeness auto
termination
  by (relation "measure id") auto

declare bitLength.simps [simp del]

definition roundHalfEven :: "int \<Rightarrow> int \<Rightarrow> int" where
  "roundHalfEven x d =
     (if 2 * (x mod d) > d \<or> (2 * (x mod d) = d \<and> odd (x div d)) then x div d + 1
      else x div d)"

definition toDoubleAt :: "nat \<Rightarrow> int \<Rightarrow> int" where
  "toDoubleAt b s =
     (if b \<le> 53 then s else sgn s * (roundHalfEven \<bar>s\<bar> (2 ^ (b - 53)) * 2 ^ (b - 53)))"

definition toDouble :: "int \<Rightarrow> int" where
  "toDouble s = toDoubleAt (bitLength (nat \<bar>s\<bar>)) s"

definition jsAdd :: "int \<Rightarrow> int \<Rightarrow> int" where
  "jsAdd x y = toDouble (x + y)"

definition truncQuotientAt :: "nat \<Rightarrow> int \<Rightarrow> int \<Rightarrow> int" where
  "truncQuotientAt b a n =
     (if b \<ge> 53 then roundHalfEven a (n * 2 ^ (b - 53)) * 2 ^ (b - 53)
      else roundHalfEven (a * 2 ^ (53 - b)) n div 2 ^ (53 - b))"

definition truncQuotient :: "int \<Rightarrow> int \<Rightarrow> int" where
  "truncQuotient a n = truncQuotientAt (bitLength (nat (a div n))) a n"

text \<open>
  The time value of \<^verbatim>\<open>new Date(mean)\<close>. The mean of time values lies in the range of
  \<^verbatim>\<open>Date\<close> as long as every multiple \<open>k * 8.64 * 10^15\<close> up to the number of fragments
  is a double, which holds for fewer than 273286 fragments; the model covers such values.
\<close>

definition meanMillis :: "int list \<Rightarrow> int" where
  "meanMillis numbers =
     sgn (foldl jsAdd 0 numbers)
       * truncQuotient \<bar>foldl jsAdd 0 numbers\<bar> (int (length numbers))"

definition formatValue :: "env \<Rightarrow> string \<Rightarrow> string option \<Rightarrow> jsval" where
  "formatValue args t v =
     (if t = ''DATE'' then
        (case v of
           None \<Rightarrow> Str (isoDate 0)
         | Some s \<Rightarrow>
             (case newDate args s of
                Some ms \<Rightarrow> Str (isoDate ms)
              | None \<Rightarrow>
                  (case force_date_parsing args of
                     Some delimiters \<Rightarrow>
                       (let numbers =
                              List.map_filter (newDate args)
                                (regexSplit args (FORCE_DATE_REGEX delimiters) s)
                        in if length numbers > 0 then Str (isoDate (meanMillis numbers))
                           else Undefined)
                   | None \<Rightarrow> Str s)))
      else ofValue v)"

subsection \<open>A model of the split\<close>

text \<open>
  What \<^verbatim>\<open>value.split(FORCE_DATE_REGEX)\<close> returns, for the expressions this model can read:
  alternatives of the shape \<^verbatim>\<open>(?:...)\<close> joined by \<^verbatim>\<open>|\<close>, each a sequence of characters
  and dots with an optional star after each, matched without regard to the case of ASCII
  letters (flag \<^verbatim>\<open>i\<close>). A star is greedy and gives back what the rest of the alternative
  needs; the first alternative that matches at a position wins. \<open>splitLoop\<close> is the loop
  of the split: \<open>cur\<close> is the fragment since the last delimiter, the third argument the
  text from the position under test; an empty match directly after a delimiter is skipped.
  Any other expression is outside the model (\<open>None\<close>).
\<close>

datatype item = Chr char | AnyChar

datatype atom = One item | Star item

definition special :: "char \<Rightarrow> bool" where
  "special c \<longleftrightarrow>
     c \<in> set [CHR 0x5C, CHR ''^'', CHR ''$'', CHR ''*'', CHR ''+'', CHR ''?'', CHR ''('',
                CHR '')'', CHR ''['', CHR '']'', CHR ''{'', CHR ''}'', CHR ''|'']"

definition toItem :: "char \<Rightarrow> item" where
  "toItem c = (if c = CHR ''.'' then AnyChar else Chr c)"

fun parseAtoms :: "string \<Rightarrow> atom list option" where
  "parseAtoms [] = Some []"
| "parseAtoms [c] = (if special c then None else Some [One (toItem c)])"
| "parseAtoms (c # d # rest) =
     (if special c then None
      else if d = CHR ''*'' then
        (case rest of
           [] \<Rightarrow> Some [Star (toItem c)]
         | e # _ \<Rightarrow> if e \<in> set ''*+?{'' then None
                    else map_option (\<lambda>as. Star (toItem c) # as) (parseAtoms rest))
      else map_option (\<lambda>as. One (toItem c) # as) (parseAtoms (d # rest)))"

fun splitOn :: "char \<Rightarrow> string \<Rightarrow> string list" where
  "splitOn sep [] = [[]]"
| "splitOn sep (c # cs) =
     (case splitOn sep cs of
        [] \<Rightarrow> [[c]]
      | x # xs \<Rightarrow> if c = sep then [] # x # xs else (c # x) # xs)"

definition parseGroup :: "string \<Rightarrow> atom list option" where
  "parseGroup g =
     (if length g \<ge> 4 \<and> take 3 g = ''(?:'' \<and> last g = CHR '')''
      then parseAtoms (butlast (drop 3 g)) else None)"

fun allSome :: "'a option list \<Rightarrow> 'a list option" where
  "allSome [] = Some []"
| "allSome (x # xs) =
     (case x of None \<Rightarrow> None | Some y \<Rightarrow> map_option (\<lambda>ys. y # ys) (allSome xs))"

definition compile :: "string \<Rightarrow> atom list list option" where
  "compile src = allSome (map parseGroup (splitOn CHR ''|'' src))"

definition canonical :: "char \<Rightarrow> char" where
  "canonical c =
     (case map_of (zip ''abcdefghijklmnopqrstuvwxyz'' ''ABCDEFGHIJKLMNOPQRSTUVWXYZ'') c of
        Some u \<Rightarrow> u | None \<Rightarrow> c)"

definition lineTerminator :: "char \<Rightarrow> bool" where
  "lineTerminator c \<longleftrightarrow> c = CHR 0x0A \<or> c = CHR 0x0D"

fun itemMatches :: "item \<Rightarrow> char \<Rightarrow> bool" where
  "itemMatches (Chr a) c \<longleftrightarrow> canonical a = canonical c"
| "itemMatches AnyChar c \<longleftrightarrow> \<not> lineTerminator c"

fun matchAtoms :: "atom list \<Rightarrow> string \<Rightarrow> string option" where
  "matchAtoms [] s = Some s"
| "matchAtoms (One i # as) [] = None"
| "matchAtoms (One i # as) (c # cs) = (if itemMatches i c then matchAtoms as cs else None)"
| "matchAtoms (Star i # as) [] = matchAtoms as []"
| "matchAtoms (Star i # as) (c # cs) =
     (if itemMatches i c then
        (case matchAtoms (Star i # as) cs of
           Some r \<Rightarrow> Some r
         | None \<Rightarrow> matchAtoms as (c # cs))
      else matchAtoms as (c # cs))"

fun matchFirst :: "atom list list \<Rightarrow> string \<Rightarrow> string option" where
  "matchFirst [] s = None"
| "matchFirst (alt # alts) s =
     (case matchAtoms alt s of Some r \<Rightarrow> Some r | None \<Rightarrow> matchFirst alts s)"

function splitLoop :: "atom list list \<Rightarrow> string \<Rightarrow> string \<Rightarrow> string list" where
  "splitLoop alts cur [] = [cur]"
| "splitLoop alts cur (c # cs) =
     (case matchFirst alts (c # cs) of
        None \<Rightarrow> splitLoop alts (cur @ [c]) cs
      | Some r \<Rightarrow>
          if length r < length (c # cs) then cur # splitLoop alts [] r
          else if cur = [] then splitLoop alts (cur @ [c]) cs
          else cur # splitLoop alts [] (c # cs))"
  by pat_completeness auto
termination
  by (relation "measure (\<lambda>(alts, cur, rest). 2 * length rest + (if cur = [] then 0 else 1))") auto

definition jsSplit :: "string \<Rightarrow> string \<Rightarrow> string list option" where
  "jsSplit src s =
     (case compile src of
        None \<Rightarrow> None
      | Some alts \<Rightarrow>
          Some (if s = [] then (if matchFirst alts [] = None then [[]] else [])
                else splitLoop alts [] s))"

section \<open>The table registry\<close>

record table =
  rows :: "row list"
  columns :: "string list"

record pvtable =
  pvrows :: "(string \<times> row) list"
  pvcolumns :: "string list"

record state =
  tables :: "(string \<times> table) list"
  promotedValueTables :: "(string \<times> pvtable) list"

text \<open>
  \<^verbatim>\<open>if (!tables[name]) { tables[name] = { rows: [], columns: new Set(cols) } }\<close>
\<close>

definition ensureTable :: "string \<Rightarrow> string list \<Rightarrow> (string \<times> table) list \<Rightarrow> (string \<times> table) list" where
  "ensureTable name cols ts =
     (if \<not> truthyAt ts name then AList.update name \<lparr>rows = [], columns = newSet cols\<rparr> ts else ts)"

text \<open>
  \<^verbatim>\<open>tables[name].rows.push(...rs)\<close> and \<^verbatim>\<open>tables[name].columns.add(c)\<close>. When
  \<^verbatim>\<open>tables[name]\<close> is \<^verbatim>\<open>undefined\<close> or a member of \<^verbatim>\<open>Object.prototype\<close>, reading
  \<^verbatim>\<open>.rows.push\<close> or \<^verbatim>\<open>.columns.add\<close> throws a \<^verbatim>\<open>TypeError\<close>.
\<close>

definition pushRows :: "string \<Rightarrow> row list \<Rightarrow> (string \<times> table) list \<Rightarrow> error + (string \<times> table) list" where
  "pushRows name rs ts =
     (case map_of ts name of
        Some tb \<Rightarrow> Inr (AList.update name (tb\<lparr>rows := rows tb @ rs\<rparr>) ts)
      | None \<Rightarrow> Inl TypeError)"

definition addColumn :: "string \<Rightarrow> string \<Rightarrow> (string \<times> table) list \<Rightarrow> error + (string \<times> table) list" where
  "addColumn name c ts =
     (case map_of ts name of
        Some tb \<Rightarrow> Inr (AList.update name (tb\<lparr>columns := setAdd c (columns tb)\<rparr>) ts)
      | None \<Rightarrow> Inl TypeError)"

text \<open>
  \<^verbatim>\<open>addJunctionRow(sourceTable, sourceId, targetTable, targetId)\<close>. The row is the object
  literal \<^verbatim>\<open>{ [sourceTable]: sourceId, [targetTable]: targetId }\<close>: with equal names the
  second entry overwrites the first.
\<close>

definition junctionName :: "string \<Rightarrow> string \<Rightarrow> string" where
  "junctionName sourceTable targetTable = sourceTable @ ''_'' @ targetTable"

definition junctionRow :: "string \<Rightarrow> jsval \<Rightarrow> string \<Rightarrow> jsval \<Rightarrow> row" where
  "junctionRow sourceTable sourceId targetTable targetId =
     AList.update targetTable targetId [(sourceTable, sourceId)]"

definition addJunctionRow :: "string \<Rightarrow> jsval \<Rightarrow> string \<Rightarrow> jsval \<Rightarrow> state \<Rightarrow> error + state" where
  "addJunctionRow sourceTable sourceId targetTable targetId st =
     (let junctionTable = junctionName sourceTable targetTable;
          ts = ensureTable junctionTable [sourceTable, targetTable] (tables st)
      in case pushRows junctionTable [junctionRow sourceTable sourceId targetTable targetId] ts of
           Inl e \<Rightarrow> Inl e
         | Inr ts' \<Rightarrow> Inr (st\<lparr>tables := ts'\<rparr>))"

text \<open>
  \<^verbatim>\<open>addPromotedValue(sourceTable, sourceId, targetTable, targetValue)\<close>. The rows of a
  promoted-value table are an object keyed by the value; the test
  \<^verbatim>\<open>!promotedValueTables[targetTable].rows[targetValue]\<close> also sees the members of
  \<^verbatim>\<open>Object.prototype\<close>, and \<^verbatim>\<open>.id\<close> of such a member is \<^verbatim>\<open>undefined\<close>.
\<close>

definition generatedId :: "string \<Rightarrow> nat \<Rightarrow> string" where
  "generatedId targetTable n = ''@gedcom-to-csv_generated_'' @ targetTable @ showNat n @ ''@''"

definition addPromotedValue :: "string \<Rightarrow> jsval \<Rightarrow> string \<Rightarrow> string option \<Rightarrow> state \<Rightarrow> error + state" where
  "addPromotedValue sourceTable sourceId targetTable targetValue st =
     (let pvts = (if \<not> truthyAt (promotedValueTables st) targetTable
                  then AList.update targetTable
                         \<lparr>pvrows = [], pvcolumns = newSet [''id'', targetTable]\<rparr>
                         (promotedValueTables st)
                  else promotedValueTables st)
      in case map_of pvts targetTable of
           None \<Rightarrow> Inl TypeError
         | Some pv \<Rightarrow>
             (let k = keyOf targetValue;
                  pv' = (if \<not> truthyAt (pvrows pv) k
                         then pv\<lparr>pvrows := AList.update k
                                (AList.update targetTable (ofValue targetValue)
                                   [(''id'', Str (generatedId targetTable (length (pvrows pv))))])
                                (pvrows pv)\<rparr>
                         else pv);
                  targetId = (case map_of (pvrows pv') k of Some r \<Rightarrow> cell r ''id'' | None \<Rightarrow> Undefined)
              in addJunctionRow sourceTable sourceId targetTable targetId
                   (st\<lparr>promotedValueTables := AList.update targetTable pv' pvts\<rparr>)))"

section \<open>The promotion engine\<close>

definition LINK_ATTRIBUTES :: "(string \<times> string) list" where
  "LINK_ATTRIBUTES = [(''CHIL'', ''INDI''), (''FAMC'', ''FAM''), (''FAMS'', ''FAM'')]"

definition PROMOTED_VALUES :: "(string \<times> string list) list" where
  "PROMOTED_VALUES =
     [(''INDI'', [''TITL'', ''RELI'', ''_EMPLOY'', ''BLES'', ''_DCAUSE'', ''DEAT'', ''OCCU'',
                  ''EDUC'', ''_MDCL''])]"

text \<open>The tags that \<^verbatim>\<open>PROMOTED_VALUES\<close> lists, for any table.\<close>

definition promotedTags :: "string list" where
  "promotedTags = concat (map snd PROMOTED_VALUES)"

text \<open>
  \<^verbatim>\<open>LINK_ATTRIBUTES[childRecord.tag]\<close>, as a condition and as the target table name: an
  inherited member is truthy, and the template literal and the computed property key turn it
  into its string.
\<close>

definition linkAttribute :: "string \<Rightarrow> string option" where
  "linkAttribute t =
     (case map_of LINK_ATTRIBUTES t of Some target \<Rightarrow> Some target | None \<Rightarrow> map_of objectPrototype t)"

text \<open>
  \<^verbatim>\<open>PROMOTED_VALUES[tag]?.has(childRecord.tag)\<close>: \<^verbatim>\<open>undefined\<close> (falsy) when the tag has no
  entry; when the tag names a member of \<^verbatim>\<open>Object.prototype\<close>, that member has no method
  \<^verbatim>\<open>has\<close> and the call throws.
\<close>

definition promotedValuesHas :: "string \<Rightarrow> string \<Rightarrow> error + bool" where
  "promotedValuesHas t ct =
     (case map_of PROMOTED_VALUES t of
        Some s \<Rightarrow> Inr (ct \<in> set s)
      | None \<Rightarrow> if inherited t then Inl TypeError else Inr False)"

text \<open>
  The loop of the plain-column rule:
  \<^verbatim>\<open>let dupIndex = 2; let column = childRecord.tag;
  while (record[column] !== undefined) { column = `${childRecord.tag}${dupIndex}`; dupIndex += 1; }\<close>
\<close>

definition suffixed :: "string \<Rightarrow> nat \<Rightarrow> string" where
  "suffixed t dupIndex = t @ showNat dupIndex"

definition takenFrom :: "row \<Rightarrow> string \<Rightarrow> nat \<Rightarrow> nat set" where
  "takenFrom r t d = {k. d \<le> k \<and> definedAt r (suffixed t k)}"


lemma digitVal_digitChar: "d < 10 \<Longrightarrow> digitVal (digitChar d) = d"
proof -
  assume "d < 10"
  then have "d \<in> {0, 1, 2, 3, 4, 5, 6, 7, 8, 9}" by auto
  then show ?thesis by (auto simp: digitVal_def digitChar_def)
qed

lemma readNat_snoc: "readNat (s @ [c]) = 10 * readNat s + digitVal c"
  by (simp add: readNat_def)

lemma readNat_showNat: "readNat (showNat n) = n"
proof (induction n rule: showNat.induct)
  case (1 n)
  show ?case
  proof (cases "n < 10")
    case True
    then show ?thesis
      by (subst showNat.simps) (simp add: readNat_def digitVal_digitChar)
  next
    case False
    with 1 have "readNat (showNat (n div 10)) = n div 10" by simp
    with False show ?thesis
      by (subst showNat.simps) (simp add: readNat_snoc digitVal_digitChar)
  qed
qed

lemma inj_showNat: "inj showNat"
  by (rule inj_on_inverseI [where g = readNat]) (rule readNat_showNat)

lemma inj_suffixed: "inj (suffixed t)"
  by (rule injI) (simp add: suffixed_def inj_showNat [THEN injD])

lemma finite_definedAt: "finite {k. definedAt r k}"
proof -
  have "{k. definedAt r k} \<subseteq> fst ` set r \<union> set (map fst objectPrototype)"
    by (auto simp: definedAt_def inherited_def map_of_eq_None_iff split: option.splits)
  then show ?thesis by (rule finite_subset) simp
qed

lemma finite_takenFrom: "finite (takenFrom r t d)"
proof -
  have "takenFrom r t d \<subseteq> suffixed t -` {k. definedAt r k}"
    by (auto simp: takenFrom_def)
  moreover have "finite (suffixed t -` {k. definedAt r k})"
    by (rule finite_vimageI [OF finite_definedAt inj_suffixed])
  ultimately show ?thesis by (rule finite_subset)
qed

lemma takenFrom_Suc:
  assumes "definedAt r (suffixed t d)"
  shows "takenFrom r t (Suc d) \<subset> takenFrom r t d"
proof -
  have "d \<in> takenFrom r t d" using assms by (simp add: takenFrom_def)
  moreover have "d \<notin> takenFrom r t (Suc d)" by (simp add: takenFrom_def)
  moreover have "takenFrom r t (Suc d) \<subseteq> takenFrom r t d" by (auto simp: takenFrom_def)
  ultimately show ?thesis by blast
qed

function freeSuffix :: "row \<Rightarrow> string \<Rightarrow> nat \<Rightarrow> string" where
  "freeSuffix r t dupIndex =
     (if definedAt r (suffixed t dupIndex) then freeSuffix r t (Suc dupIndex)
      else suffixed t dupIndex)"
  by pat_completeness auto
termination
  by (relation "measure (\<lambda>(r, t, d). card (takenFrom r t d))")
    (simp_all add: psubset_card_mono finite_takenFrom takenFrom_Suc)

declare freeSuffix.simps [simp del]

definition freeColumn :: "row \<Rightarrow> string \<Rightarrow> string" where
  "freeColumn r t = (if definedAt r t then freeSuffix r t 2 else t)"

text \<open>
  The plain-column rule, after the loop:
  \<^verbatim>\<open>record[column] = formatValue(childRecord.tag, childRecord.value);
  tables[tag].columns.add(column);\<close>
\<close>

definition plainColumn :: "env \<Rightarrow> string \<Rightarrow> row \<Rightarrow> string \<Rightarrow> string option \<Rightarrow> state \<Rightarrow> error + (row \<times> state)" where
  "plainColumn args t r ct cv st =
     (let column = freeColumn r ct;
          r' = AList.update column (formatValue args ct cv) r
      in case addColumn t column (tables st) of
           Inl e \<Rightarrow> Inl e
         | Inr ts \<Rightarrow> Inr (r', st\<lparr>tables := ts\<rparr>))"

text \<open>
  \<^verbatim>\<open>promotedRecord.pointer || `@${promotedRecord.tag}${tables[promotedRecord.tag].rows.length}@`\<close>:
  a pointer that is \<^verbatim>\<open>null\<close> or empty is falsy.
\<close>

definition synthesizedId :: "string \<Rightarrow> nat \<Rightarrow> string" where
  "synthesizedId t n = ''@'' @ t @ showNat n @ ''@''"

definition countedId :: "string \<Rightarrow> (string \<times> table) list \<Rightarrow> error + string" where
  "countedId t ts =
     (case map_of ts t of
        Some tb \<Rightarrow> Inr (synthesizedId t (length (rows tb)))
      | None \<Rightarrow> Inl TypeError)"

definition promotedId :: "string \<Rightarrow> string option \<Rightarrow> (string \<times> table) list \<Rightarrow> error + string" where
  "promotedId t p ts =
     (case p of
        Some s \<Rightarrow> if s \<noteq> [] then Inr s else countedId t ts
      | None \<Rightarrow> countedId t ts)"

lemma size_node_children: "size n = Suc (size_list size (children n))"
  by (cases n) simp

text \<open>
  \<^verbatim>\<open>parseChild(tag, pointer, record, childRecord)\<close> changes the row \<^verbatim>\<open>record\<close> and the two
  registries; \<^verbatim>\<open>parsePromotedRecord(sourceTable, sourceId, promotedRecord)\<close> changes the
  registries. \<open>base\<close> is \<^verbatim>\<open>baseTableNames\<close>, the tags of the top-level nodes.
  \<open>forEachChild\<close> is \<^verbatim>\<open>promotedRecord.children?.forEach(...)\<close>.
\<close>

function parseChild :: "env \<Rightarrow> string list \<Rightarrow> string \<Rightarrow> jsval \<Rightarrow> row \<Rightarrow> node \<Rightarrow> state \<Rightarrow> error + (row \<times> state)"
  and parsePromotedRecord :: "env \<Rightarrow> string list \<Rightarrow> string \<Rightarrow> jsval \<Rightarrow> node \<Rightarrow> state \<Rightarrow> error + state"
  and forEachChild :: "env \<Rightarrow> string list \<Rightarrow> string \<Rightarrow> jsval \<Rightarrow> row \<Rightarrow> node list \<Rightarrow> state \<Rightarrow> error + (row \<times> state)"
where
  "parseChild args base t ptr r childRecord st =
     (case linkAttribute (tag childRecord) of
        Some target \<Rightarrow>
          (case addJunctionRow t ptr target (ofValue (nvalue childRecord)) st of
             Inl e \<Rightarrow> Inl e
           | Inr st' \<Rightarrow> Inr (r, st'))
      | None \<Rightarrow>
          if tag childRecord \<in> set base then
            (case addJunctionRow t ptr (tag childRecord) (ofValue (nvalue childRecord)) st of
               Inl e \<Rightarrow> Inl e
             | Inr st' \<Rightarrow> Inr (r, st'))
          else
            (case promotedValuesHas t (tag childRecord) of
               Inl e \<Rightarrow> Inl e
             | Inr promoted \<Rightarrow>
                 if promoted then
                   (case addPromotedValue t ptr (tag childRecord) (nvalue childRecord) st of
                      Inl e \<Rightarrow> Inl e
                    | Inr st' \<Rightarrow> Inr (r, st'))
                 else if length (children childRecord) > 0 then
                   (case parsePromotedRecord args base t ptr childRecord st of
                      Inl e \<Rightarrow> Inl e
                    | Inr st' \<Rightarrow> Inr (r, st'))
                 else if nvalue childRecord = None then Inr (r, st)
                 else plainColumn args t r (tag childRecord) (nvalue childRecord) st))"
| "parsePromotedRecord args base sourceTable sourceId promotedRecord st =
     (let ts = ensureTable (tag promotedRecord) [''id'', tag promotedRecord] (tables st)
      in case promotedId (tag promotedRecord) (pointer promotedRecord) ts of
           Inl e \<Rightarrow> Inl e
         | Inr ident \<Rightarrow>
             (case addJunctionRow sourceTable sourceId (tag promotedRecord) (Str ident)
                     (st\<lparr>tables := ts\<rparr>) of
                Inl e \<Rightarrow> Inl e
              | Inr st1 \<Rightarrow>
                  (case forEachChild args base (tag promotedRecord) (Str ident)
                          (AList.update (tag promotedRecord)
                             (formatValue args (tag promotedRecord) (nvalue promotedRecord))
                             [(''id'', Str ident)])
                          (children promotedRecord) st1 of
                     Inl e \<Rightarrow> Inl e
                   | Inr (r, st2) \<Rightarrow>
                       (case pushRows (tag promotedRecord) [r] (tables st2) of
                          Inl e \<Rightarrow> Inl e
                        | Inr ts' \<Rightarrow> Inr (st2\<lparr>tables := ts'\<rparr>)))))"
| "forEachChild args base t ptr r [] st = Inr (r, st)"
| "forEachChild args base t ptr r (childRecord # rest) st =
     (case parseChild args base t ptr r childRecord st of
        Inl e \<Rightarrow> Inl e
      | Inr (r', st') \<Rightarrow> forEachChild args base t ptr r' rest st')"
  by pat_completeness auto


termination
proof (relation "measure (\<lambda>x. case x of
          Inl (_, _, _, _, _, n, _) \<Rightarrow> 2 * size n
        | Inr (Inl (_, _, _, _, n, _)) \<Rightarrow> 2 * size n - 1
        | Inr (Inr (_, _, _, _, _, cs, _)) \<Rightarrow> 2 * size_list size cs)", goal_cases)
  case 1
  show ?case by simp
next
  case 2
  then show ?case by (simp add: size_node_children)
next
  case 3
  then show ?case by (simp add: size_node_children)
next
  case 4
  then show ?case by simp
next
  case 5
  then show ?case by simp
qed


declare parseChild.simps [simp del] parsePromotedRecord.simps [simp del]

section \<open>Extra tables\<close>

definition EXTRA_TABLES :: "env \<Rightarrow> (string \<times> table) list" where
  "EXTRA_TABLES args =
     (if parents_table args
      then [(''PARENTS'', \<lparr>rows = [], columns = newSet [''child'', ''parent'']\<rparr>)] else [])"

text \<open>
  The parser registered for \<^verbatim>\<open>PARENTS\<close>:
  \<^verbatim>\<open>(record, tag, pointer, children) => { ... return results; }\<close>
\<close>

definition parentRow :: "node \<Rightarrow> row \<Rightarrow> string \<Rightarrow> row" where
  "parentRow childRecord r spouse =
     [(''child'', ofValue (nvalue childRecord)), (''parent'', cell r spouse)]"

definition PARENTS :: "row \<Rightarrow> string \<Rightarrow> jsval \<Rightarrow> node list \<Rightarrow> row list" where
  "PARENTS r t ptr cs =
     (if t = ''FAM'' then
        concat (map (\<lambda>childRecord.
          if tag childRecord = ''CHIL'' then
            (if truthyCell r ''WIFE'' then [parentRow childRecord r ''WIFE''] else [])
            @ (if truthyCell r ''HUSB'' then [parentRow childRecord r ''HUSB''] else [])
          else []) cs)
      else [])"

definition EXTRA_TABLE_PARSERS ::
  "env \<Rightarrow> (string \<times> (row \<Rightarrow> string \<Rightarrow> jsval \<Rightarrow> node list \<Rightarrow> row list)) list" where
  "EXTRA_TABLE_PARSERS args = (if parents_table args then [(''PARENTS'', PARENTS)] else [])"

text \<open>
  \<^verbatim>\<open>Object.entries(EXTRA_TABLE_PARSERS).forEach(([table, parser]) => {
    tables[table].rows.push(...parser(record, tag, pointer, children)); });\<close>
\<close>

fun runParsers ::
  "(string \<times> (row \<Rightarrow> string \<Rightarrow> jsval \<Rightarrow> node list \<Rightarrow> row list)) list \<Rightarrow>
   row \<Rightarrow> string \<Rightarrow> jsval \<Rightarrow> node list \<Rightarrow> (string \<times> table) list \<Rightarrow> error + (string \<times> table) list" where
  "runParsers [] r t ptr cs ts = Inr ts"
| "runParsers ((name, parser) # ps) r t ptr cs ts =
     (case pushRows name (parser r t ptr cs) ts of
        Inl e \<Rightarrow> Inl e
      | Inr ts' \<Rightarrow> runParsers ps r t ptr cs ts')"

section \<open>The record flattener\<close>

text \<open>
  The body of \<^verbatim>\<open>children.forEach\<close> for a top-level node: \<^verbatim>\<open>parseChild\<close>, then the copy
  of the name when \<^verbatim>\<open>--copy_individual_names\<close> is set.
\<close>

fun forEachTopChild :: "env \<Rightarrow> string list \<Rightarrow> string \<Rightarrow> jsval \<Rightarrow> row \<Rightarrow> node list \<Rightarrow> state \<Rightarrow> error + (row \<times> state)" where
  "forEachTopChild args base t ptr r [] st = Inr (r, st)"
| "forEachTopChild args base t ptr r (childRecord # rest) st =
     (case parseChild args base t ptr r childRecord st of
        Inl e \<Rightarrow> Inl e
      | Inr (r', st') \<Rightarrow>
          if copy_individual_names args \<and> t = ''INDI'' \<and> tag childRecord = ''NAME'' then
            (case addColumn ''INDI'' ''NAME'' (tables st') of
               Inl e \<Rightarrow> Inl e
             | Inr ts \<Rightarrow>
                 forEachTopChild args base t ptr
                   (AList.update ''NAME'' (ofValue (nvalue childRecord)) r') rest
                   (st'\<lparr>tables := ts\<rparr>))
          else forEachTopChild args base t ptr r' rest st')"

text \<open>The body of \<^verbatim>\<open>allRecords.forEach\<close>.\<close>

definition flattenRecord :: "env \<Rightarrow> string list \<Rightarrow> node \<Rightarrow> state \<Rightarrow> error + state" where
  "flattenRecord args base gedcomRecord st =
     (let t = tag gedcomRecord;
          ptr = ofValue (pointer gedcomRecord);
          ts = ensureTable t [''id''] (tables st)
      in case forEachTopChild args base t ptr [(''id'', ptr)] (children gedcomRecord)
                (st\<lparr>tables := ts\<rparr>) of
           Inl e \<Rightarrow> Inl e
         | Inr (r, st1) \<Rightarrow>
             (case pushRows t [r] (tables st1) of
                Inl e \<Rightarrow> Inl e
              | Inr ts1 \<Rightarrow>
                  (case runParsers (EXTRA_TABLE_PARSERS args) r t ptr (children gedcomRecord) ts1 of
                     Inl e \<Rightarrow> Inl e
                   | Inr ts2 \<Rightarrow> Inr (st1\<lparr>tables := ts2\<rparr>))))"

fun forEachRecord :: "env \<Rightarrow> string list \<Rightarrow> node list \<Rightarrow> state \<Rightarrow> error + state" where
  "forEachRecord args base [] st = Inr st"
| "forEachRecord args base (gedcomRecord # rest) st =
     (case flattenRecord args base gedcomRecord st of
        Inl e \<Rightarrow> Inl e
      | Inr st' \<Rightarrow> forEachRecord args base rest st')"


section \<open>The integration pass\<close>

text \<open>
  \<^verbatim>\<open>if (tables[table]) { tables[table].columns.add(...columns);
       tables[table].rows.push(...Object.values(rows)); }
  else { tables[table] = { rows: Object.values(rows), columns }; }\<close>
  \<^verbatim>\<open>Set.prototype.add\<close> takes one argument: of the spread \<^verbatim>\<open>...columns\<close> it adds the
  first column only. The column set of a promoted-value table is created with \<^verbatim>\<open>id\<close> in
  it and never changed, so it is not empty.
\<close>

definition addSpread :: "string \<Rightarrow> string list \<Rightarrow> (string \<times> table) list \<Rightarrow> error + (string \<times> table) list" where
  "addSpread name cols ts =
     (case cols of
        c # _ \<Rightarrow> addColumn name c ts
      | [] \<Rightarrow> (case map_of ts name of Some tb \<Rightarrow> Inr ts | None \<Rightarrow> Inl TypeError))"

definition integrateTable :: "string \<Rightarrow> pvtable \<Rightarrow> (string \<times> table) list \<Rightarrow> error + (string \<times> table) list" where
  "integrateTable name pv ts =
     (if truthyAt ts name then
        (case addSpread name (pvcolumns pv) ts of
           Inl e \<Rightarrow> Inl e
         | Inr ts' \<Rightarrow> pushRows name (objectValues (pvrows pv)) ts')
      else Inr (AList.update name \<lparr>rows = objectValues (pvrows pv), columns = pvcolumns pv\<rparr> ts))"

fun integrate :: "(string \<times> pvtable) list \<Rightarrow> (string \<times> table) list \<Rightarrow> error + (string \<times> table) list" where
  "integrate [] ts = Inr ts"
| "integrate ((name, pv) # rest) ts =
     (case integrateTable name pv ts of
        Inl e \<Rightarrow> Inl e
      | Inr ts' \<Rightarrow> integrate rest ts')"

text \<open>The callback of \<^verbatim>\<open>fs.readFile\<close>, up to the tables that are written out.\<close>

definition flattenAll :: "env \<Rightarrow> node list \<Rightarrow> error + state" where
  "flattenAll args allRecords =
     forEachRecord args (map tag allRecords) allRecords
       \<lparr>tables = EXTRA_TABLES args, promotedValueTables = []\<rparr>"

definition convert :: "env \<Rightarrow> node list \<Rightarrow> error + (string \<times> table) list" where
  "convert args allRecords =
     (case flattenAll args allRecords of
        Inl e \<Rightarrow> Inl e
      | Inr st \<Rightarrow> integrate (objectEntries (promotedValueTables st)) (tables st))"


section \<open>Examples\<close>

text \<open>
  The command line with no option. The two services of the host are reached only through
  a value tagged \<^verbatim>\<open>DATE\<close>; the examples that use \<open>plainArgs\<close> have none, and any
  other choice of \<open>newDate\<close> and \<open>regexSplit\<close> gives the same results there.
\<close>

definition plainArgs :: env where
  "plainArgs =
     \<lparr>force_date_parsing = None, parents_table = False, copy_individual_names = False,
      newDate = (\<lambda>_. None), regexSplit = (\<lambda>_ s. [s])\<rparr>"

text \<open>
  A host that parses one string, an ISO date-time; every conforming host gives this time
  value for it (2001-02-03, 04:05:06 UTC).
\<close>

definition isoHost :: env where
  "isoHost =
     \<lparr>force_date_parsing = None, parents_table = False, copy_individual_names = False,
      newDate = (\<lambda>s. if s = ''2001-02-03T04:05:06.000Z'' then Some 981173106000 else None),
      regexSplit = (\<lambda>_ s. [s])\<rparr>"

section \<open>Tables only grow\<close>

text \<open>
  No table is removed, no row is removed or changed once pushed, no column is removed.
\<close>

definition grows :: "(string \<times> table) list \<Rightarrow> (string \<times> table) list \<Rightarrow> bool" where
  "grows ts ts' \<longleftrightarrow>
     (\<forall>name tb. map_of ts name = Some tb \<longrightarrow>
        (\<exists>tb'. map_of ts' name = Some tb' \<and> (\<exists>more. rows tb' = rows tb @ more)
           \<and> set (columns tb) \<subseteq> set (columns tb')))"


text \<open>
  What a run keeps true of the two registries, \<open>base\<close> being the tags of the top-level
  nodes. A table that bears the name of a promoted tag outside \<open>base\<close> has the columns
  \<^verbatim>\<open>id\<close> and that tag. The promoted-value tables have different names, each a promoted
  tag outside \<open>base\<close>, each with the columns \<^verbatim>\<open>id\<close> and its name and with one row for
  each key.
\<close>

definition colInv :: "string list \<Rightarrow> (string \<times> table) list \<Rightarrow> bool" where
  "colInv base ts \<longleftrightarrow>
     (\<forall>T tb. T \<in> set promotedTags \<longrightarrow> T \<notin> set base \<longrightarrow> map_of ts T = Some tb \<longrightarrow>
        ''id'' \<in> set (columns tb) \<and> T \<in> set (columns tb))"

definition pvInv :: "string list \<Rightarrow> (string \<times> pvtable) list \<Rightarrow> bool" where
  "pvInv base pvts \<longleftrightarrow>
     distinct (map fst pvts)
     \<and> (\<forall>T pv. map_of pvts T = Some pv \<longrightarrow>
          T \<in> set promotedTags \<and> T \<notin> set base \<and> pvcolumns pv = [''id'', T]
          \<and> distinct (map fst (pvrows pv)))"

lemma replicate_numeral_step: "replicate (numeral k) x = x # replicate (pred_numeral k) x"
  by (simp add: numeral_eq_Suc)

lemma bitLength_0: "bitLength 0 = 0"
  by (subst bitLength.simps) simp

lemma bitLength_step: "n \<noteq> 0 \<Longrightarrow> bitLength n = bitLength (n div 2) + 1"
  by (subst bitLength.simps) simp

lemma showNat_digit: "n < 10 \<Longrightarrow> showNat n = [digitChar n]"
  by (subst showNat.simps) simp

lemma showNat_more: "\<not> n < 10 \<Longrightarrow> showNat n = showNat (n div 10) @ [digitChar (n mod 10)]"
  by (subst showNat.simps) simp

lemma freeSuffix_taken: "definedAt r (suffixed t d) \<Longrightarrow> freeSuffix r t d = freeSuffix r t (Suc d)"
  by (subst freeSuffix.simps) simp

lemma freeSuffix_free: "\<not> definedAt r (suffixed t d) \<Longrightarrow> freeSuffix r t d = suffixed t d"
  by (subst freeSuffix.simps) simp

lemmas run_defs = convert_def flattenAll_def flattenRecord_def EXTRA_TABLES_def
  EXTRA_TABLE_PARSERS_def parseChild.simps parsePromotedRecord.simps plainColumn_def
  freeColumn_def freeSuffix_taken freeSuffix_free suffixed_def promotedId_def countedId_def synthesizedId_def
  addPromotedValue_def addJunctionRow_def junctionName_def junctionRow_def
  ensureTable_def pushRows_def addColumn_def addSpread_def integrateTable_def
  linkAttribute_def LINK_ATTRIBUTES_def promotedValuesHas_def PROMOTED_VALUES_def
  truthyAt_def definedAt_def truthyCell_def cell_def inherited_def objectPrototype_def
  setAdd_def newSet_def generatedId_def keyOf_def ofValue_def formatValue_def
  isoDate_def civil_def civilOfEra_def civilOfYear_def civilOfMonth_def yearOfEra_def
  isoYear_def pad_def meanMillis_def replicate_numeral_step
  truncQuotient_def truncQuotientAt_def jsAdd_def toDouble_def toDoubleAt_def
  roundHalfEven_def bitLength_0 bitLength_step
  objectEntries_def objectValues_def isArrayIndex_def readNat_def digitVal_def
  showNat_digit showNat_more digitChar_def PARENTS_def parentRow_def Let_def

lemma grows_refl: "grows ts ts"
  by (simp add: grows_def)

lemma grows_trans: "grows a b \<Longrightarrow> grows b c \<Longrightarrow> grows a c"
  unfolding grows_def
  apply (intro allI impI)
  apply (drule spec, drule spec, drule (1) mp)
  apply (elim exE conjE)
  apply (drule spec, drule spec, drule (1) mp)
  apply (elim exE conjE)
  apply auto
  done

lemma grows_ensureTable: "grows ts (ensureTable name cols ts)"
  by (auto simp: grows_def ensureTable_def truthyAt_def update_conv')

lemma grows_pushRows: "pushRows name rs ts = Inr ts' \<Longrightarrow> grows ts ts'"
  by (auto simp: grows_def pushRows_def update_conv' split: option.splits)

lemma grows_addColumn: "addColumn name c ts = Inr ts' \<Longrightarrow> grows ts ts'"
  by (auto simp: grows_def addColumn_def update_conv' setAdd_def split: option.splits)

lemma grows_addJunctionRow: "addJunctionRow S sid T tid st = Inr st' \<Longrightarrow> grows (tables st) (tables st')"
  by (auto simp: addJunctionRow_def Let_def split: sum.splits
      intro: grows_trans [OF grows_ensureTable grows_pushRows])

lemma addJunctionRow_pvts: "addJunctionRow S sid T tid st = Inr st' \<Longrightarrow> promotedValueTables st' = promotedValueTables st"
  by (auto simp: addJunctionRow_def Let_def split: sum.splits)

lemma grows_addPromotedValue: "addPromotedValue S sid T v st = Inr st' \<Longrightarrow> grows (tables st) (tables st')"
  by (auto simp: addPromotedValue_def Let_def split: option.splits dest!: grows_addJunctionRow)

lemma grows_plainColumn: "plainColumn args t r ct cv st = Inr (r', st') \<Longrightarrow> grows (tables st) (tables st')"
  by (auto simp: plainColumn_def Let_def split: sum.splits dest: grows_addColumn)



lemma parseChild_cases [consumes 1, case_names link sibling promotedValue promotedRecord nullValue plain]:
  assumes "parseChild args base t ptr r c st = Inr (r', st')"
  obtains
    (link) target where "linkAttribute (tag c) = Some target"
      "addJunctionRow t ptr target (ofValue (nvalue c)) st = Inr st'" "r' = r"
  | (sibling) "linkAttribute (tag c) = None" "tag c \<in> set base"
      "addJunctionRow t ptr (tag c) (ofValue (nvalue c)) st = Inr st'" "r' = r"
  | (promotedValue) "linkAttribute (tag c) = None" "tag c \<notin> set base"
      "promotedValuesHas t (tag c) = Inr True"
      "addPromotedValue t ptr (tag c) (nvalue c) st = Inr st'" "r' = r"
  | (promotedRecord) "linkAttribute (tag c) = None" "tag c \<notin> set base"
      "promotedValuesHas t (tag c) = Inr False" "children c \<noteq> []"
      "parsePromotedRecord args base t ptr c st = Inr st'" "r' = r"
  | (nullValue) "linkAttribute (tag c) = None" "tag c \<notin> set base"
      "promotedValuesHas t (tag c) = Inr False" "children c = []" "nvalue c = None"
      "st' = st" "r' = r"
  | (plain) "linkAttribute (tag c) = None" "tag c \<notin> set base"
      "promotedValuesHas t (tag c) = Inr False" "children c = []" "nvalue c \<noteq> None"
      "plainColumn args t r (tag c) (nvalue c) st = Inr (r', st')"
proof (cases "linkAttribute (tag c)")
  case (Some target)
  with assms link show ?thesis
    by (subst (asm) parseChild.simps) (simp split: sum.splits)
next
  case None
  note la = None
  show ?thesis
  proof (cases "tag c \<in> set base")
    case True
    with assms la sibling show ?thesis
      by (subst (asm) parseChild.simps) (simp split: sum.splits)
  next
    case nb: False
    show ?thesis
    proof (cases "promotedValuesHas t (tag c)")
      case (Inl e)
      with assms la nb show ?thesis
        by (subst (asm) parseChild.simps) simp
    next
      case (Inr promoted)
      show ?thesis
      proof (cases promoted)
        case True
        with assms la nb Inr promotedValue show ?thesis
          by (subst (asm) parseChild.simps) (simp split: sum.splits)
      next
        case np: False
        show ?thesis
        proof (cases "children c = []")
          case False
          with assms la nb Inr np promotedRecord show ?thesis
            by (subst (asm) parseChild.simps) (simp split: sum.splits)
        next
          case leaf: True
          show ?thesis
          proof (cases "nvalue c = None")
            case True
            with assms la nb Inr np leaf nullValue show ?thesis
              by (subst (asm) parseChild.simps) simp
          next
            case False
            with assms la nb Inr np leaf plain show ?thesis
              by (subst (asm) parseChild.simps) simp
          qed
        qed
      qed
    qed
  qed
qed

lemma parsePromotedRecord_cases [consumes 1]:
  assumes "parsePromotedRecord args base sourceTable sourceId n st = Inr st'"
  obtains ident st1 r st2 ts' where
    "promotedId (tag n) (pointer n) (ensureTable (tag n) [''id'', tag n] (tables st)) = Inr ident"
    "addJunctionRow sourceTable sourceId (tag n) (Str ident)
       (st\<lparr>tables := ensureTable (tag n) [''id'', tag n] (tables st)\<rparr>) = Inr st1"
    "forEachChild args base (tag n) (Str ident)
       (AList.update (tag n) (formatValue args (tag n) (nvalue n)) [(''id'', Str ident)])
       (children n) st1 = Inr (r, st2)"
    "pushRows (tag n) [r] (tables st2) = Inr ts'"
    "st' = st2\<lparr>tables := ts'\<rparr>"
  using assms
  by (subst (asm) parsePromotedRecord.simps) (auto simp: Let_def split: sum.splits)

lemma forEachChild_Cons_cases [consumes 1]:
  assumes "forEachChild args base t ptr r (c # cs) st = Inr (r', st')"
  obtains r1 st1 where
    "parseChild args base t ptr r c st = Inr (r1, st1)"
    "forEachChild args base t ptr r1 cs st1 = Inr (r', st')"
  using assms by (auto split: sum.splits)


lemma grows_engine:
  "parseChild args base t ptr r c st = Inr (r', st') \<Longrightarrow> grows (tables st) (tables st')"
  "parsePromotedRecord args base S sid n st = Inr st'' \<Longrightarrow> grows (tables st) (tables st'')"
  "forEachChild args base t ptr r cs st = Inr (r', st') \<Longrightarrow> grows (tables st) (tables st')"
proof (induction args base t ptr r c st and args base S sid n st and args base t ptr r cs st
    arbitrary: r' st' and st'' and r' st'
    rule: parseChild_parsePromotedRecord_forEachChild.induct)
  case (1 args base t ptr r childRecord st)
  from "1.prems" show ?case
  proof (cases rule: parseChild_cases)
    case (link target)
    then show ?thesis by (auto dest: grows_addJunctionRow)
  next
    case sibling
    then show ?thesis by (auto dest: grows_addJunctionRow)
  next
    case promotedValue
    then show ?thesis by (auto dest: grows_addPromotedValue)
  next
    case promotedRecord
    then show ?thesis using "1.IH" by simp
  next
    case nullValue
    then show ?thesis by (simp add: grows_refl)
  next
    case plain
    then show ?thesis by (auto dest: grows_plainColumn)
  qed
next
  case (2 args base sourceTable sourceId promotedRecord st)
  from "2.prems" show ?case
  proof (cases rule: parsePromotedRecord_cases)
    case (1 ident st1 r st2 ts')
    have g1: "grows (tables st) (ensureTable (tag promotedRecord) [''id'', tag promotedRecord] (tables st))"
      by (rule grows_ensureTable)
    have g2: "grows (ensureTable (tag promotedRecord) [''id'', tag promotedRecord] (tables st)) (tables st1)"
      using grows_addJunctionRow [OF 1(2)] by simp
    have g3: "grows (tables st1) (tables st2)" using "2.IH" [OF refl 1(1) 1(2) 1(3)] .
    have g4: "grows (tables st2) ts'" by (rule grows_pushRows [OF 1(4)])
    show ?thesis
      using grows_trans [OF grows_trans [OF grows_trans [OF g1 g2] g3] g4] 1(5) by simp
  qed
next
  case (3 args base t ptr r st)
  then show ?case by (simp add: grows_refl)
next
  case (4 args base t ptr r childRecord rest st)
  from "4.prems" show ?case
  proof (cases rule: forEachChild_Cons_cases)
    case (1 r1 st1)
    have "grows (tables st) (tables st1)" using "4.IH"(1) [OF 1(1)] .
    moreover have "grows (tables st1) (tables st')" using "4.IH"(2) [OF 1(1) refl 1(2)] .
    ultimately show ?thesis by (rule grows_trans)
  qed
qed


section \<open>Rows under construction\<close>

lemma not_definedAt_freeSuffix: "\<not> definedAt r (freeSuffix r t d)"
proof (induction r t d rule: freeSuffix.induct)
  case (1 r t dupIndex)
  then show ?case by (subst freeSuffix.simps) simp
qed

lemma not_definedAt_freeColumn: "\<not> definedAt r (freeColumn r t)"
  by (simp add: freeColumn_def not_definedAt_freeSuffix)

lemma plainColumn_keeps:
  assumes "plainColumn args t r ct cv st = Inr (r', st')" and "definedAt r k"
  shows "map_of r' k = map_of r k"
proof -
  have "freeColumn r ct \<noteq> k" using assms(2) not_definedAt_freeColumn by blast
  with assms(1) show ?thesis
    by (auto simp: plainColumn_def Let_def update_conv' split: sum.splits)
qed

lemma parseChild_keeps:
  assumes "parseChild args base t ptr r c st = Inr (r', st')" and "definedAt r k"
  shows "map_of r' k = map_of r k"
  using assms(1)
  by (cases rule: parseChild_cases) (auto dest: plainColumn_keeps [OF _ assms(2)])

lemma forEachChild_keeps:
  "forEachChild args base t ptr r cs st = Inr (r', st') \<Longrightarrow> definedAt r k \<Longrightarrow> map_of r' k = map_of r k"
proof (induction cs arbitrary: r st)
  case Nil
  then show ?case by simp
next
  case (Cons c cs)
  from Cons.prems(1) obtain r1 st1 where
    pc: "parseChild args base t ptr r c st = Inr (r1, st1)" and
    fe: "forEachChild args base t ptr r1 cs st1 = Inr (r', st')"
    by (rule forEachChild_Cons_cases)
  have m1: "map_of r1 k = map_of r k" using parseChild_keeps [OF pc Cons.prems(2)] .
  then have "definedAt r1 k" using Cons.prems(2) by (simp add: definedAt_def)
  from Cons.IH [OF fe this] m1 show ?case by simp
qed

lemma addJunctionRow_last:
  assumes "addJunctionRow S sid T tid st = Inr st'"
  shows "\<exists>j. map_of (tables st') (junctionName S T) = Some j \<and> junctionRow S sid T tid \<in> set (rows j)"
  using assms
  by (auto simp: addJunctionRow_def Let_def pushRows_def update_conv' split: sum.splits option.splits)

lemma grows_member:
  assumes "grows ts ts'" and "map_of ts name = Some tb" and "x \<in> set (rows tb)"
  shows "\<exists>tb'. map_of ts' name = Some tb' \<and> x \<in> set (rows tb')"
  using assms unfolding grows_def by fastforce

lemma promotedId_closed:
  assumes "promotedId t p (ensureTable t cols ts) = Inr ident"
  shows "ident = (case p of
             Some s \<Rightarrow> if s \<noteq> [] then s
                       else synthesizedId t (case map_of ts t of Some tb \<Rightarrow> length (rows tb) | None \<Rightarrow> 0)
           | None \<Rightarrow> synthesizedId t (case map_of ts t of Some tb \<Rightarrow> length (rows tb) | None \<Rightarrow> 0))"
  using assms
  by (auto simp: promotedId_def countedId_def ensureTable_def truthyAt_def update_conv'
      split: option.splits if_splits)

section \<open>Promoted records\<close>

text \<open>
  Claim C10, as amended. A promoted sub-record is identified by its own pointer when it has
  one, otherwise by \<^verbatim>\<open>@<tag><n>@\<close> where \<open>n\<close> is the number of rows that the table of its
  tag holds when \<^verbatim>\<open>parsePromotedRecord\<close> is entered (0 when the table is created there),
  that is before its children are flattened and before its own row is pushed. That
  identifier is the target of the junction row, and it is the \<^verbatim>\<open>id\<close> cell of the record's
  row, the last row of its table on return, unless the record is tagged \<^verbatim>\<open>id\<close>: then
  that cell holds the record's value. As a consequence a record without pointer whose child
  has the same tag and no pointer gets the identifier of that child: on any host, the node
  \<^verbatim>\<open>X\<close> below gives two different rows of table \<^verbatim>\<open>T\<close> with the id \<^verbatim>\<open>@T0@\<close>.
\<close>

theorem promoted_record_id:
  "(parsePromotedRecord args base sourceTable sourceId n st = Inr st' \<longrightarrow>
      (\<exists>ident tb j.
         ident = (case pointer n of
                    Some s \<Rightarrow> if s \<noteq> [] then s
                              else synthesizedId (tag n)
                                     (case map_of (tables st) (tag n) of
                                        Some tb0 \<Rightarrow> length (rows tb0) | None \<Rightarrow> 0)
                  | None \<Rightarrow> synthesizedId (tag n)
                              (case map_of (tables st) (tag n) of
                                 Some tb0 \<Rightarrow> length (rows tb0) | None \<Rightarrow> 0))
         \<and> map_of (tables st') (tag n) = Some tb \<and> rows tb \<noteq> []
         \<and> cell (last (rows tb)) ''id''
             = (if tag n = ''id'' then ofValue (nvalue n) else Str ident)
         \<and> map_of (tables st') (junctionName sourceTable (tag n)) = Some j
         \<and> junctionRow sourceTable sourceId (tag n) (Str ident) \<in> set (rows j)))
   \<and> convert \<lparr>force_date_parsing = None, parents_table = False, copy_individual_names = False,
               newDate = nd, regexSplit = rs\<rparr>
        [Node ''X'' (Some ''@X1@'') None
           [Node ''T'' None None [Node ''T'' None None [Node ''NOTE'' None (Some ''n'') []]]]]
      = Inr [(''X'', \<lparr>rows = [[(''id'', Str ''@X1@'')]], columns = [''id'']\<rparr>),
             (''T'', \<lparr>rows = [[(''id'', Str ''@T0@''), (''T'', Null), (''NOTE'', Str ''n'')],
                               [(''id'', Str ''@T0@''), (''T'', Null)]],
                      columns = [''id'', ''T'', ''NOTE'']\<rparr>),
             (''X_T'', \<lparr>rows = [[(''X'', Str ''@X1@''), (''T'', Str ''@T0@'')]],
                        columns = [''X'', ''T'']\<rparr>),
             (''T_T'', \<lparr>rows = [[(''T'', Str ''@T0@'')]], columns = [''T'']\<rparr>)]"
proof (intro conjI impI)
  assume a: "parsePromotedRecord args base sourceTable sourceId n st = Inr st'"
  then show "\<exists>ident tb j.
         ident = (case pointer n of
                    Some s \<Rightarrow> if s \<noteq> [] then s
                              else synthesizedId (tag n)
                                     (case map_of (tables st) (tag n) of
                                        Some tb0 \<Rightarrow> length (rows tb0) | None \<Rightarrow> 0)
                  | None \<Rightarrow> synthesizedId (tag n)
                              (case map_of (tables st) (tag n) of
                                 Some tb0 \<Rightarrow> length (rows tb0) | None \<Rightarrow> 0))
         \<and> map_of (tables st') (tag n) = Some tb \<and> rows tb \<noteq> []
         \<and> cell (last (rows tb)) ''id''
             = (if tag n = ''id'' then ofValue (nvalue n) else Str ident)
         \<and> map_of (tables st') (junctionName sourceTable (tag n)) = Some j
         \<and> junctionRow sourceTable sourceId (tag n) (Str ident) \<in> set (rows j)"
  proof (cases rule: parsePromotedRecord_cases)
    case (1 ident st1 r st2 ts')
    let ?r0 = "AList.update (tag n) (formatValue args (tag n) (nvalue n)) [(''id'', Str ident)]"
    have idc: "ident = (case pointer n of
                    Some s \<Rightarrow> if s \<noteq> [] then s
                              else synthesizedId (tag n)
                                     (case map_of (tables st) (tag n) of
                                        Some tb0 \<Rightarrow> length (rows tb0) | None \<Rightarrow> 0)
                  | None \<Rightarrow> synthesizedId (tag n)
                              (case map_of (tables st) (tag n) of
                                 Some tb0 \<Rightarrow> length (rows tb0) | None \<Rightarrow> 0))"
      by (rule promotedId_closed [OF 1(1)])
    from 1(4) obtain tb2 where tb2: "map_of (tables st2) (tag n) = Some tb2"
      and ts': "ts' = AList.update (tag n) (tb2\<lparr>rows := rows tb2 @ [r]\<rparr>) (tables st2)"
      by (auto simp: pushRows_def split: option.splits)
    have own: "map_of (tables st') (tag n) = Some (tb2\<lparr>rows := rows tb2 @ [r]\<rparr>)"
      using 1(5) ts' by (simp add: update_conv')
    have idcell: "cell r ''id'' = (if tag n = ''id'' then ofValue (nvalue n) else Str ident)"
    proof (cases "tag n = ''id''")
      case True
      then have m0: "map_of ?r0 ''id'' = Some (ofValue (nvalue n))"
        by (simp add: update_conv' formatValue_def)
      then have "definedAt ?r0 ''id''"
        by (simp add: definedAt_def ofValue_def split: option.splits)
      from forEachChild_keeps [OF 1(3) this] m0 True show ?thesis
        by (simp add: cell_def)
    next
      case False
      then have m0: "map_of ?r0 ''id'' = Some (Str ident)" by (simp add: update_conv')
      then have "definedAt ?r0 ''id''" by (simp add: definedAt_def)
      from forEachChild_keeps [OF 1(3) this] m0 False show ?thesis
        by (simp add: cell_def)
    qed
    from addJunctionRow_last [OF 1(2)] obtain j1 where
      j1: "map_of (tables st1) (junctionName sourceTable (tag n)) = Some j1"
      and in1: "junctionRow sourceTable sourceId (tag n) (Str ident) \<in> set (rows j1)" by blast
    have g: "grows (tables st1) (tables st')"
      using grows_trans [OF grows_engine(3) [OF 1(3)] grows_pushRows [OF 1(4)]] 1(5) by simp
    from grows_member [OF g j1 in1] obtain j where
      "map_of (tables st') (junctionName sourceTable (tag n)) = Some j"
      "junctionRow sourceTable sourceId (tag n) (Str ident) \<in> set (rows j)" by blast
    with idc own idcell show ?thesis by auto
  qed
next
  show "convert \<lparr>force_date_parsing = None, parents_table = False, copy_individual_names = False,
               newDate = nd, regexSplit = rs\<rparr>
        [Node ''X'' (Some ''@X1@'') None
           [Node ''T'' None None [Node ''T'' None None [Node ''NOTE'' None (Some ''n'') []]]]]
      = Inr [(''X'', \<lparr>rows = [[(''id'', Str ''@X1@'')]], columns = [''id'']\<rparr>),
             (''T'', \<lparr>rows = [[(''id'', Str ''@T0@''), (''T'', Null), (''NOTE'', Str ''n'')],
                               [(''id'', Str ''@T0@''), (''T'', Null)]],
                      columns = [''id'', ''T'', ''NOTE'']\<rparr>),
             (''X_T'', \<lparr>rows = [[(''X'', Str ''@X1@''), (''T'', Str ''@T0@'')]],
                        columns = [''X'', ''T'']\<rparr>),
             (''T_T'', \<lparr>rows = [[(''T'', Str ''@T0@'')]], columns = [''T'']\<rparr>)]"
    by (simp add: run_defs)
qed

theorem promoted_record_id_witness:
  "parsePromotedRecord plainArgs [] ''X'' (Str ''@X1@'')
       (Node ''T'' None None [Node ''NOTE'' None (Some ''n'') []])
       \<lparr>tables = [(''T'', \<lparr>rows = [[(''id'', Str ''@T0@'')]], columns = [''id'']\<rparr>)],
        promotedValueTables = []\<rparr>
     = Inr \<lparr>tables =
              [(''T'', \<lparr>rows = [[(''id'', Str ''@T0@'')],
                                 [(''id'', Str ''@T1@''), (''T'', Null), (''NOTE'', Str ''n'')]],
                        columns = [''id'', ''NOTE'']\<rparr>),
               (''X_T'', \<lparr>rows = [[(''X'', Str ''@X1@''), (''T'', Str ''@T1@'')]],
                          columns = [''X'', ''T'']\<rparr>)],
            promotedValueTables = []\<rparr>
   \<and> (\<exists>tb. map_of [(''T'', \<lparr>rows = [[(''id'', Str ''@T0@'')],
                                 [(''id'', Str ''@T1@''), (''T'', Null), (''NOTE'', Str ''n'')]],
                        columns = [''id'', ''NOTE'']\<rparr>),
               (''X_T'', \<lparr>rows = [[(''X'', Str ''@X1@''), (''T'', Str ''@T1@'')]],
                          columns = [''X'', ''T'']\<rparr>)] ''T'' = Some tb
         \<and> cell (last (rows tb)) ''id'' = Str (synthesizedId ''T'' 1))"
proof -
  have run: "parsePromotedRecord plainArgs [] ''X'' (Str ''@X1@'')
       (Node ''T'' None None [Node ''NOTE'' None (Some ''n'') []])
       \<lparr>tables = [(''T'', \<lparr>rows = [[(''id'', Str ''@T0@'')]], columns = [''id'']\<rparr>)],
        promotedValueTables = []\<rparr>
     = Inr \<lparr>tables =
              [(''T'', \<lparr>rows = [[(''id'', Str ''@T0@'')],
                                 [(''id'', Str ''@T1@''), (''T'', Null), (''NOTE'', Str ''n'')]],
                        columns = [''id'', ''NOTE'']\<rparr>),
               (''X_T'', \<lparr>rows = [[(''X'', Str ''@X1@''), (''T'', Str ''@T1@'')]],
                          columns = [''X'', ''T'']\<rparr>)],
            promotedValueTables = []\<rparr>"
    by (simp add: plainArgs_def run_defs)
  from promoted_record_id [THEN conjunct1, rule_format, OF run]
  show ?thesis using run by auto
qed


text \<open>
  Claim C10 as stated fails for a promoted sub-record tagged \<^verbatim>\<open>id\<close>. Its row is the
  object literal \<^verbatim>\<open>{ id, [promotedRecord.tag]: formatValue(...) }\<close>, whose second key is
  \<^verbatim>\<open>id\<close> again: the row id is the record's value \<^verbatim>\<open>v\<close>, not its pointer
  \<^verbatim>\<open>@P1@\<close>, which only the junction row keeps.
\<close>

theorem promoted_record_id_counterexample:
  "convert plainArgs
     [Node ''X'' (Some ''@X1@'') None
        [Node ''id'' (Some ''@P1@'') (Some ''v'') [Node ''NOTE'' None (Some ''n'') []]]]
   = Inr [(''X'', \<lparr>rows = [[(''id'', Str ''@X1@'')]], columns = [''id'']\<rparr>),
          (''id'', \<lparr>rows = [[(''id'', Str ''v''), (''NOTE'', Str ''n'')]],
                    columns = [''id'', ''NOTE'']\<rparr>),
          (''X_id'', \<lparr>rows = [[(''X'', Str ''@X1@''), (''id'', Str ''@P1@'')]],
                      columns = [''X'', ''id'']\<rparr>)]"
  by (simp add: plainArgs_def run_defs)

section \<open>Junction rows\<close>

lemma pushRows_own:
  "map_of ts name = Some tb \<Longrightarrow>
   pushRows name rs ts = Inr (AList.update name (tb\<lparr>rows := rows tb @ rs\<rparr>) ts)"
  by (simp add: pushRows_def)

lemma ensureTable_lookup:
  "map_of (ensureTable name cols ts) k =
     (if k = name \<and> \<not> truthyAt ts name then Some \<lparr>rows = [], columns = newSet cols\<rparr>
      else map_of ts k)"
  by (simp add: ensureTable_def update_conv')

lemma addJunctionRow_appends:
  assumes "S \<noteq> T" and "\<not> inherited (junctionName S T)"
  shows "\<exists>st' j. addJunctionRow S sid T tid st = Inr st'
           \<and> junctionName S T = S @ ''_'' @ T
           \<and> map_of (tables st') (junctionName S T) = Some j
           \<and> rows j = (case map_of (tables st) (junctionName S T) of
                          Some j0 \<Rightarrow> rows j0 | None \<Rightarrow> []) @ [[(S, sid), (T, tid)]]
           \<and> columns j = (case map_of (tables st) (junctionName S T) of
                             Some j0 \<Rightarrow> columns j0 | None \<Rightarrow> [S, T])
           \<and> (\<forall>name. name \<noteq> junctionName S T \<longrightarrow>
                  map_of (tables st') name = map_of (tables st) name)
           \<and> promotedValueTables st' = promotedValueTables st"
proof (cases "map_of (tables st) (junctionName S T)")
  case None
  with assms show ?thesis
    by (simp add: addJunctionRow_def Let_def pushRows_def ensureTable_lookup truthyAt_def
        update_conv' junctionRow_def newSet_def setAdd_def junctionName_def)
next
  case (Some j0)
  with assms show ?thesis
    by (simp add: addJunctionRow_def Let_def pushRows_def ensureTable_lookup truthyAt_def
        update_conv' junctionRow_def junctionName_def)
qed

section \<open>Precedence of the sibling-table rule\<close>

lemma promoted_values_INDI:
  "map_of PROMOTED_VALUES t = Some s \<Longrightarrow> t = ''INDI'' \<and> Some s = map_of PROMOTED_VALUES ''INDI''"
  by (simp add: PROMOTED_VALUES_def split: if_splits)

lemma promoted_tags_facts:
  "\<forall>ct \<in> set (the (map_of PROMOTED_VALUES ''INDI'')).
     linkAttribute ct = None \<and> \<not> inherited (junctionName ''INDI'' ct) \<and> ''INDI'' \<noteq> ct"
  by (simp add: PROMOTED_VALUES_def linkAttribute_def LINK_ATTRIBUTES_def objectPrototype_def
      inherited_def junctionName_def)

lemma linkAttribute_promoted:
  "map_of PROMOTED_VALUES t = Some s \<Longrightarrow> ct \<in> set s \<Longrightarrow> linkAttribute ct = None"
  using promoted_tags_facts promoted_values_INDI [of t s] by (metis option.sel)

lemma junction_promoted_not_inherited:
  "map_of PROMOTED_VALUES t = Some s \<Longrightarrow> ct \<in> set s \<Longrightarrow> \<not> inherited (junctionName t ct)"
  using promoted_tags_facts promoted_values_INDI [of t s] by (metis option.sel)

lemma promoted_source_differs:
  "map_of PROMOTED_VALUES t = Some s \<Longrightarrow> ct \<in> set s \<Longrightarrow> t \<noteq> ct"
  using promoted_tags_facts promoted_values_INDI [of t s] by (metis option.sel)


text \<open>
  Claim C7. When the child's tag is listed in \<^verbatim>\<open>PROMOTED_VALUES\<close> for the current table
  and is also the tag of a top-level node, \<^verbatim>\<open>parseChild\<close> returns, leaves the row
  and the promoted-value tables as they are, and its effect is that of
  \<^verbatim>\<open>addJunctionRow(tag, pointer, childRecord.tag, childRecord.value)\<close>: one more row
  \<^verbatim>\<open>{tag: pointer, childTag: value}\<close> at the end of the junction table.
\<close>

theorem sibling_before_promoted:
  assumes pv: "map_of PROMOTED_VALUES t = Some s" and mem: "tag c \<in> set s"
    and top: "tag c \<in> set base"
  shows "\<exists>st' j. parseChild args base t ptr r c st = Inr (r, st')
           \<and> addJunctionRow t ptr (tag c) (ofValue (nvalue c)) st = Inr st'
           \<and> promotedValueTables st' = promotedValueTables st
           \<and> map_of (tables st') (junctionName t (tag c)) = Some j
           \<and> rows j = (case map_of (tables st) (junctionName t (tag c)) of
                          Some j0 \<Rightarrow> rows j0 | None \<Rightarrow> [])
                        @ [[(t, ptr), (tag c, ofValue (nvalue c))]]"
proof -
  from addJunctionRow_appends [OF promoted_source_differs [OF pv mem]
      junction_promoted_not_inherited [OF pv mem], of ptr "ofValue (nvalue c)" st]
  obtain st' j where
    aj: "addJunctionRow t ptr (tag c) (ofValue (nvalue c)) st = Inr st'" and
    j: "map_of (tables st') (junctionName t (tag c)) = Some j" and
    rj: "rows j = (case map_of (tables st) (junctionName t (tag c)) of
                          Some j0 \<Rightarrow> rows j0 | None \<Rightarrow> [])
                        @ [[(t, ptr), (tag c, ofValue (nvalue c))]]" and
    pv': "promotedValueTables st' = promotedValueTables st"
    by blast
  have "parseChild args base t ptr r c st = Inr (r, st')"
    by (subst parseChild.simps) (simp add: linkAttribute_promoted [OF pv mem] top aj)
  with aj j rj pv' show ?thesis by blast
qed

theorem sibling_before_promoted_witness:
  "map_of PROMOTED_VALUES ''INDI'' = Some (the (map_of PROMOTED_VALUES ''INDI''))
   \<and> tag (Node ''TITL'' None (Some ''@T1@'') []) \<in> set (the (map_of PROMOTED_VALUES ''INDI''))
   \<and> tag (Node ''TITL'' None (Some ''@T1@'') []) \<in> set [''INDI'', ''TITL'']
   \<and> (\<exists>st'. parseChild plainArgs [''INDI'', ''TITL''] ''INDI'' (Str ''@I1@'')
                 [(''id'', Str ''@I1@'')] (Node ''TITL'' None (Some ''@T1@'') [])
                 \<lparr>tables = [], promotedValueTables = []\<rparr> = Inr ([(''id'', Str ''@I1@'')], st')
          \<and> promotedValueTables st' = []
          \<and> map_of (tables st') ''INDI_TITL''
              = Some \<lparr>rows = [[(''INDI'', Str ''@I1@''), (''TITL'', Str ''@T1@'')]],
                      columns = [''INDI'', ''TITL'']\<rparr>)"
proof -
  have a: "map_of PROMOTED_VALUES ''INDI'' = Some (the (map_of PROMOTED_VALUES ''INDI''))"
    by (simp add: PROMOTED_VALUES_def)
  have b: "tag (Node ''TITL'' None (Some ''@T1@'') []) \<in> set (the (map_of PROMOTED_VALUES ''INDI''))"
    by (simp add: PROMOTED_VALUES_def)
  have c: "tag (Node ''TITL'' None (Some ''@T1@'') []) \<in> set [''INDI'', ''TITL'']"
    by simp
  from sibling_before_promoted [OF a b c, of plainArgs "Str ''@I1@''" "[(''id'', Str ''@I1@'')]"
      "\<lparr>tables = [], promotedValueTables = []\<rparr>"]
  obtain st' j where
    "parseChild plainArgs [''INDI'', ''TITL''] ''INDI'' (Str ''@I1@'')
       [(''id'', Str ''@I1@'')] (Node ''TITL'' None (Some ''@T1@'') [])
       \<lparr>tables = [], promotedValueTables = []\<rparr> = Inr ([(''id'', Str ''@I1@'')], st')"
    "addJunctionRow ''INDI'' (Str ''@I1@'') ''TITL'' (Str ''@T1@'')
       \<lparr>tables = [], promotedValueTables = []\<rparr> = Inr st'"
    by (auto simp: ofValue_def)
  moreover from this(2) have
    "st' = \<lparr>tables = [(''INDI_TITL'',
               \<lparr>rows = [[(''INDI'', Str ''@I1@''), (''TITL'', Str ''@T1@'')]],
                  columns = [''INDI'', ''TITL'']\<rparr>)], promotedValueTables = []\<rparr>"
    by (simp add: run_defs)
  ultimately show ?thesis using a b c by auto
qed


section \<open>The plain-column rule\<close>

lemma parseChild_plain:
  assumes "linkAttribute (tag c) = None" "tag c \<notin> set base"
    "promotedValuesHas t (tag c) = Inr False" "children c = []" "nvalue c = Some v"
  shows "parseChild args base t ptr r c st = plainColumn args t r (tag c) (Some v) st"
  using assms by (subst parseChild.simps) simp

lemma inherited_last:
  "\<forall>k \<in> set (map fst objectPrototype). k \<noteq> [] \<and> last k \<noteq> CHR ''2'' \<and> last k \<noteq> CHR ''3''"
  by (simp add: objectPrototype_def)

lemma not_inherited_snoc:
  "c = CHR ''2'' \<or> c = CHR ''3'' \<Longrightarrow> \<not> inherited (X @ [c])"
  using inherited_last unfolding inherited_def by (metis last_snoc)

lemma linkAttribute_None_not_inherited: "linkAttribute X = None \<Longrightarrow> \<not> inherited X"
  by (auto simp: linkAttribute_def inherited_def map_of_eq_None_iff split: option.splits)

lemma promotedValuesHas_not_inherited:
  "promotedValuesHas t X = Inr b \<Longrightarrow> map_of PROMOTED_VALUES t \<noteq> None \<or> \<not> inherited t"
  by (auto simp: promotedValuesHas_def split: option.splits if_splits)

lemma showNat_2: "showNat 2 = ''2''" by (simp add: showNat_digit digitChar_def)
lemma showNat_3: "showNat 3 = ''3''" by (simp add: showNat_digit digitChar_def)

lemma freeColumn_first:
  assumes "X \<noteq> ''id''" "\<not> inherited X"
  shows "freeColumn [(''id'', P)] X = X"
  using assms by (simp add: freeColumn_def definedAt_def)

lemma freeColumn_second:
  assumes "X \<noteq> ''id''" "fa \<noteq> Undefined"
  shows "freeColumn [(''id'', P), (X, fa)] X = X @ ''2''"
proof -
  have d: "definedAt [(''id'', P), (X, fa)] X" using assms by (simp add: definedAt_def)
  have n: "\<not> definedAt [(''id'', P), (X, fa)] (X @ ''2'')"
    using not_inherited_snoc [of "CHR ''2''" X] by (auto simp: definedAt_def)
  show ?thesis
    using d n by (simp add: freeColumn_def freeSuffix_free suffixed_def showNat_2)
qed

lemma freeColumn_third:
  assumes "X \<noteq> ''id''" "fa \<noteq> Undefined" "fb \<noteq> Undefined"
  shows "freeColumn [(''id'', P), (X, fa), (X @ ''2'', fb)] X = X @ ''3''"
proof -
  let ?r = "[(''id'', P), (X, fa), (X @ ''2'', fb)]"
  have d: "definedAt ?r X" using assms by (simp add: definedAt_def)
  have d2: "definedAt ?r (suffixed X 2)"
    using assms by (auto simp: definedAt_def suffixed_def showNat_2)
  have n: "\<not> definedAt ?r (suffixed X (Suc 2))"
    using not_inherited_snoc [of "CHR ''3''" X]
    by (auto simp: definedAt_def suffixed_def showNat_3 numeral_3_eq_3 [symmetric])
  have "freeSuffix ?r X 2 = freeSuffix ?r X (Suc 2)" by (rule freeSuffix_taken [OF d2])
  also have "\<dots> = suffixed X (Suc 2)" by (rule freeSuffix_free [OF n])
  also have "\<dots> = X @ ''3''" by (simp add: suffixed_def showNat_3 numeral_3_eq_3 [symmetric])
  finally show ?thesis using d by (simp add: freeColumn_def)
qed


lemma plainColumn_own:
  assumes "map_of (tables st) t = Some tb"
  shows "plainColumn args t r ct cv st =
     Inr (AList.update (freeColumn r ct) (formatValue args ct cv) r,
          st\<lparr>tables := AList.update t (tb\<lparr>columns := setAdd (freeColumn r ct) (columns tb)\<rparr>) (tables st)\<rparr>)"
  using assms by (simp add: plainColumn_def addColumn_def Let_def)

lemma plain_step:
  assumes "linkAttribute X = None" "X \<notin> set base" "promotedValuesHas t X = Inr False"
    and "\<not> (copy_individual_names args \<and> t = ''INDI'' \<and> X = ''NAME'')"
    and "map_of (tables st) t = Some tb"
  shows "forEachTopChild args base t ptr r (Node X p1 (Some a) [] # rest) st =
     forEachTopChild args base t ptr
       (AList.update (freeColumn r X) (formatValue args X (Some a)) r) rest
       (st\<lparr>tables := AList.update t (tb\<lparr>columns := setAdd (freeColumn r X) (columns tb)\<rparr>) (tables st)\<rparr>)"
proof -
  have "parseChild args base t ptr r (Node X p1 (Some a) []) st
      = plainColumn args t r X (Some a) st"
    using assms(1-3) parseChild_plain [of "Node X p1 (Some a) []" base t a args ptr r st] by simp
  then show ?thesis using assms(4) plainColumn_own [OF assms(5)] by auto
qed

lemma PARENTS_no_CHIL: "\<forall>c \<in> set cs. tag c \<noteq> ''CHIL'' \<Longrightarrow> PARENTS r t ptr cs = []"
  by (simp add: PARENTS_def)

lemma runParsers_nothing:
  assumes "\<forall>c \<in> set cs. tag c \<noteq> ''CHIL''"
    and "parents_table args \<longrightarrow> map_of ts ''PARENTS'' \<noteq> None"
  shows "\<exists>ts'. runParsers (EXTRA_TABLE_PARSERS args) r t ptr cs ts = Inr ts' \<and> map_of ts' = map_of ts"
proof (cases "parents_table args")
  case False
  then show ?thesis by (simp add: EXTRA_TABLE_PARSERS_def)
next
  case True
  with assms(2) obtain p where p: "map_of ts ''PARENTS'' = Some p" by auto
  have "map_of (AList.update ''PARENTS'' p ts) = map_of ts"
    using p by (simp add: update_conv' map_upd_triv)
  with True p show ?thesis
    by (simp add: EXTRA_TABLE_PARSERS_def PARENTS_no_CHIL [OF assms(1)] pushRows_def)
qed


text \<open>
  Claim C4, as amended. A top-level node has three children tagged \<open>X\<close>, leaves with the
  values \<open>a\<close>, \<open>b\<close>, \<open>c\<close>, which no earlier rule takes. When \<open>X\<close> is not \<^verbatim>\<open>id\<close> (that
  column is taken by the row's own identity), the formatted values of \<open>a\<close> and \<open>b\<close> are
  defined, and the name copy of \<^verbatim>\<open>--copy_individual_names\<close> does not apply to \<open>X\<close>, the
  finished row, the last of the node's table, is \<^verbatim>\<open>id\<close>, \<open>X\<close>, \<open>X2\<close>, \<open>X3\<close> with the
  formatted values of \<open>a\<close>, \<open>b\<close>, \<open>c\<close> in this order, and the three names are columns of
  the table. For every tag but \<^verbatim>\<open>DATE\<close> the formatted value is the value itself. (When
  \<^verbatim>\<open>--parents-table\<close> is set the table \<^verbatim>\<open>PARENTS\<close> is in the registry from the start.)
\<close>

theorem plain_columns_collision:
  assumes link: "linkAttribute X = None" and nb: "X \<notin> set base"
    and pv: "promotedValuesHas t X = Inr False"
    and xid: "X \<noteq> ''id''"
    and nocopy: "\<not> (copy_individual_names args \<and> t = ''INDI'' \<and> X = ''NAME'')"
    and fa: "formatValue args X (Some a) \<noteq> Undefined"
    and fb: "formatValue args X (Some b) \<noteq> Undefined"
    and extra: "parents_table args \<longrightarrow> map_of (tables st) ''PARENTS'' \<noteq> None"
  shows "\<exists>st' tb.
      flattenRecord args base
        (Node t p v [Node X p1 (Some a) [], Node X p2 (Some b) [], Node X p3 (Some c) []]) st
        = Inr st'
      \<and> map_of (tables st') t = Some tb
      \<and> rows tb \<noteq> []
      \<and> last (rows tb) =
            [(''id'', ofValue p), (X, formatValue args X (Some a)),
             (X @ ''2'', formatValue args X (Some b)), (X @ ''3'', formatValue args X (Some c))]
      \<and> {X, X @ ''2'', X @ ''3''} \<subseteq> set (columns tb)
      \<and> (X \<noteq> ''DATE'' \<longrightarrow> last (rows tb) =
            [(''id'', ofValue p), (X, Str a), (X @ ''2'', Str b), (X @ ''3'', Str c)])"
proof -
  let ?P = "ofValue p"
  let ?fa = "formatValue args X (Some a)"
  let ?fb = "formatValue args X (Some b)"
  let ?fc = "formatValue args X (Some c)"
  let ?cs = "[Node X p1 (Some a) [], Node X p2 (Some b) [], Node X p3 (Some c) []]"
  let ?ts0 = "ensureTable t [''id''] (tables st)"
  have nix: "\<not> inherited X" by (rule linkAttribute_None_not_inherited [OF link])
  have nit: "\<not> inherited t"
    using pv by (auto simp: promotedValuesHas_def PROMOTED_VALUES_def inherited_def
        objectPrototype_def split: option.splits if_splits)
  obtain tb0 where tb0: "map_of ?ts0 t = Some tb0"
    using nit by (cases "map_of (tables st) t") (auto simp: ensureTable_lookup truthyAt_def)
  let ?r1 = "[(''id'', ?P), (X, ?fa)]"
  let ?r2 = "[(''id'', ?P), (X, ?fa), (X @ ''2'', ?fb)]"
  let ?r3 = "[(''id'', ?P), (X, ?fa), (X @ ''2'', ?fb), (X @ ''3'', ?fc)]"
  let ?tb3 = "tb0\<lparr>columns := setAdd (X @ ''3'') (setAdd (X @ ''2'') (setAdd X (columns tb0)))\<rparr>"
  let ?ts3 = "AList.update t ?tb3 ?ts0"
  have u1: "AList.update X ?fa [(''id'', ?P)] = ?r1" using xid by simp
  have u2: "AList.update (X @ ''2'') ?fb ?r1 = ?r2" by simp
  have u3: "AList.update (X @ ''3'') ?fc ?r2 = ?r3" by simp
  have loop: "forEachTopChild args base t ?P [(''id'', ?P)] ?cs (st\<lparr>tables := ?ts0\<rparr>)
      = Inr (?r3, st\<lparr>tables := ?ts3\<rparr>)"
    apply (subst plain_step [OF link nb pv nocopy, where tb = tb0])
     apply (simp add: tb0)
    apply (simp only: freeColumn_first [OF xid nix] u1)
    apply (subst plain_step [OF link nb pv nocopy,
          where tb = "tb0\<lparr>columns := setAdd X (columns tb0)\<rparr>"])
     apply (simp add: update_conv')
    apply (simp only: freeColumn_second [OF xid fa] u2)
    apply (subst plain_step [OF link nb pv nocopy,
          where tb = "tb0\<lparr>columns := setAdd (X @ ''2'') (setAdd X (columns tb0))\<rparr>"])
     apply (simp add: update_conv')
    apply (simp only: freeColumn_third [OF xid fa fb] u3)
    apply simp
    done
  have own3: "map_of ?ts3 t = Some ?tb3" by (simp add: update_conv')
  let ?tb4 = "?tb3\<lparr>rows := rows ?tb3 @ [?r3]\<rparr>"
  let ?ts4 = "AList.update t ?tb4 ?ts3"
  have push: "pushRows t [?r3] ?ts3 = Inr ?ts4" by (rule pushRows_own [OF own3])
  have nochil: "\<forall>c \<in> set ?cs. tag c \<noteq> ''CHIL''"
    using link by (auto simp: linkAttribute_def LINK_ATTRIBUTES_def)
  have par: "parents_table args \<longrightarrow> map_of ?ts4 ''PARENTS'' \<noteq> None"
    using extra by (auto simp: update_conv' ensureTable_lookup)
  from runParsers_nothing [OF nochil par, of ?r3 t ?P] obtain ts5 where
    rp: "runParsers (EXTRA_TABLE_PARSERS args) ?r3 t ?P ?cs ?ts4 = Inr ts5" and
    same: "map_of ts5 = map_of ?ts4" by blast
  have run: "flattenRecord args base (Node t p v ?cs) st = Inr (st\<lparr>tables := ts5\<rparr>)"
  proof -
    have sel: "tables (st\<lparr>tables := ?ts3\<rparr>) = ?ts3" by simp
    show ?thesis
      unfolding flattenRecord_def Let_def node.sel
      apply (simp only: loop sum.case prod.case)
      apply (simp only: sel push sum.case)
      apply (simp only: rp sum.case)
      apply simp
      done
  qed
  have tb: "map_of (tables (st\<lparr>tables := ts5\<rparr>)) t = Some ?tb4"
    using same by (simp add: update_conv')
  have cols: "{X, X @ ''2'', X @ ''3''} \<subseteq> set (columns ?tb4)"
    by (auto simp: setAdd_def)
  have plainfmt: "X \<noteq> ''DATE'' \<longrightarrow> ?r3 = [(''id'', ?P), (X, Str a), (X @ ''2'', Str b), (X @ ''3'', Str c)]"
    by (simp add: formatValue_def ofValue_def)
  show ?thesis
    using run tb cols plainfmt by (intro exI [of _ "st\<lparr>tables := ts5\<rparr>"] exI [of _ ?tb4]) simp
qed


theorem plain_columns_collision_witness:
  "linkAttribute ''NOTE'' = None \<and> ''NOTE'' \<notin> set [''INDI'']
   \<and> promotedValuesHas ''INDI'' ''NOTE'' = Inr False \<and> ''NOTE'' \<noteq> ''id''
   \<and> \<not> (copy_individual_names plainArgs \<and> ''INDI'' = ''INDI'' \<and> ''NOTE'' = ''NAME'')
   \<and> formatValue plainArgs ''NOTE'' (Some ''a'') \<noteq> Undefined
   \<and> formatValue plainArgs ''NOTE'' (Some ''b'') \<noteq> Undefined
   \<and> (\<exists>st' tb. flattenRecord plainArgs [''INDI'']
           (Node ''INDI'' (Some ''@I1@'') None
              [Node ''NOTE'' None (Some ''a'') [], Node ''NOTE'' None (Some ''b'') [],
               Node ''NOTE'' None (Some ''c'') []])
           \<lparr>tables = [], promotedValueTables = []\<rparr> = Inr st'
        \<and> map_of (tables st') ''INDI'' = Some tb
        \<and> last (rows tb) = [(''id'', Str ''@I1@''), (''NOTE'', Str ''a''), (''NOTE2'', Str ''b''),
                               (''NOTE3'', Str ''c'')]
        \<and> {''NOTE'', ''NOTE2'', ''NOTE3''} \<subseteq> set (columns tb))"
proof -
  have h1: "linkAttribute ''NOTE'' = None"
    by (simp add: linkAttribute_def LINK_ATTRIBUTES_def objectPrototype_def)
  have h2: "''NOTE'' \<notin> set [''INDI'']" by simp
  have h3: "promotedValuesHas ''INDI'' ''NOTE'' = Inr False"
    by (simp add: promotedValuesHas_def PROMOTED_VALUES_def)
  have h4: "''NOTE'' \<noteq> ''id''" by simp
  have h5: "\<not> (copy_individual_names plainArgs \<and> ''INDI'' = ''INDI'' \<and> ''NOTE'' = ''NAME'')"
    by simp
  have h6: "formatValue plainArgs ''NOTE'' (Some ''a'') \<noteq> Undefined"
    by (simp add: formatValue_def ofValue_def)
  have h7: "formatValue plainArgs ''NOTE'' (Some ''b'') \<noteq> Undefined"
    by (simp add: formatValue_def ofValue_def)
  have h8: "parents_table plainArgs \<longrightarrow>
      map_of (tables \<lparr>tables = [], promotedValueTables = []\<rparr>) ''PARENTS'' \<noteq> None"
    by (simp add: plainArgs_def)
  from plain_columns_collision [OF h1 h2 h3 h4 h5 h6 h7 h8, of "Some ''@I1@''" None None None None "''c''"]
  show ?thesis using h1 h2 h3 h4 h5 h6 h7 by (auto simp: ofValue_def)
qed



text \<open>
  Claim C4 as stated fails for the tag \<^verbatim>\<open>id\<close>, whose column is occupied from the start,
  so the values go to \<^verbatim>\<open>id2\<close>, \<^verbatim>\<open>id3\<close>, \<^verbatim>\<open>id4\<close>; and for the tag \<^verbatim>\<open>DATE\<close>, whose
  values are formatted, so the column does not hold the value \<open>a\<close>.
\<close>

theorem plain_columns_collision_counterexample:
  "convert plainArgs
     [Node ''T'' (Some ''@T1@'') None
        [Node ''id'' None (Some ''a'') [], Node ''id'' None (Some ''b'') [],
         Node ''id'' None (Some ''c'') []]]
   = Inr [(''T'', \<lparr>rows = [[(''id'', Str ''@T1@''), (''id2'', Str ''a''), (''id3'', Str ''b''),
                             (''id4'', Str ''c'')]],
                   columns = [''id'', ''id2'', ''id3'', ''id4'']\<rparr>)]
   \<and> convert isoHost
     [Node ''T'' (Some ''@T1@'') None
        [Node ''DATE'' None (Some ''2001-02-03T04:05:06.000Z'') [],
         Node ''DATE'' None (Some ''b'') [], Node ''DATE'' None (Some ''c'') []]]
   = Inr [(''T'', \<lparr>rows = [[(''id'', Str ''@T1@''), (''DATE'', Str ''2001-02-03''),
                             (''DATE2'', Str ''b''), (''DATE3'', Str ''c'')]],
                   columns = [''id'', ''DATE'', ''DATE2'', ''DATE3'']\<rparr>)]"
  by (simp add: plainArgs_def isoHost_def run_defs)

section \<open>The junction rows of the four rules\<close>

lemma junctionRow_cells:
  "junctionRow S sid T tid = (if S = T then [(T, tid)] else [(S, sid), (T, tid)])"
  by (simp add: junctionRow_def)

lemma newSet_pair: "newSet [S, T] = (if S = T then [T] else [S, T])"
  by (simp add: newSet_def setAdd_def)

lemma addJunctionRow_effect:
  assumes "addJunctionRow S sid T tid st = Inr st'"
  shows "\<exists>j. map_of (tables st') (S @ ''_'' @ T) = Some j
     \<and> rows j = (case map_of (tables st) (S @ ''_'' @ T) of
                    Some j0 \<Rightarrow> rows j0 | None \<Rightarrow> [])
                  @ [if S = T then [(T, tid)] else [(S, sid), (T, tid)]]
     \<and> columns j = (case map_of (tables st) (S @ ''_'' @ T) of
                       Some j0 \<Rightarrow> columns j0 | None \<Rightarrow> if S = T then [T] else [S, T])
     \<and> (\<forall>name. name \<noteq> S @ ''_'' @ T \<longrightarrow> map_of (tables st') name = map_of (tables st) name)
     \<and> promotedValueTables st' = promotedValueTables st"
proof (cases "map_of (tables st) (junctionName S T)")
  case None
  with assms show ?thesis
    by (auto simp: addJunctionRow_def Let_def pushRows_def ensureTable_lookup truthyAt_def
        update_conv' junctionRow_cells newSet_pair junctionName_def split: option.splits if_splits)
next
  case (Some j0)
  with assms show ?thesis
    by (auto simp: addJunctionRow_def Let_def pushRows_def ensureTable_lookup truthyAt_def
        update_conv' junctionRow_cells newSet_pair junctionName_def split: option.splits if_splits)
qed



lemma promotedValuesHas_True:
  "promotedValuesHas t ct = Inr True \<Longrightarrow> \<exists>s. map_of PROMOTED_VALUES t = Some s \<and> ct \<in> set s"
  by (auto simp: promotedValuesHas_def split: option.splits if_splits)






section \<open>Extra table plugins\<close>

lemma runParsers_appends:
  assumes "distinct (map fst ps)" and "runParsers ps r t ptr cs ts = Inr ts'"
  shows "(\<forall>name parser. (name, parser) \<in> set ps \<longrightarrow>
            (\<exists>p. map_of ts name = Some p
               \<and> map_of ts' name = Some (p\<lparr>rows := rows p @ parser r t ptr cs\<rparr>)))
         \<and> (\<forall>name. name \<notin> fst ` set ps \<longrightarrow> map_of ts' name = map_of ts name)"
  using assms
proof (induction ps arbitrary: ts)
  case Nil
  then show ?case by simp
next
  case (Cons a ps)
  obtain name0 parser0 where a: "a = (name0, parser0)" by (cases a)
  from Cons.prems(2) a obtain p0 where
    p0: "map_of ts name0 = Some p0" and
    rest: "runParsers ps r t ptr cs
             (AList.update name0 (p0\<lparr>rows := rows p0 @ parser0 r t ptr cs\<rparr>) ts) = Inr ts'"
    by (auto simp: pushRows_def split: option.splits sum.splits)
  let ?ts1 = "AList.update name0 (p0\<lparr>rows := rows p0 @ parser0 r t ptr cs\<rparr>) ts"
  from Cons.prems(1) a have d: "distinct (map fst ps)" and nin: "name0 \<notin> fst ` set ps" by auto
  note ih = Cons.IH [OF d rest]
  show ?case
  proof (intro conjI allI impI)
    fix name parser
    assume m: "(name, parser) \<in> set (a # ps)"
    show "\<exists>p. map_of ts name = Some p
               \<and> map_of ts' name = Some (p\<lparr>rows := rows p @ parser r t ptr cs\<rparr>)"
    proof (cases "(name, parser) = a")
      case True
      then have "name = name0" "parser = parser0" using a by auto
      moreover have "map_of ts' name0 = map_of ?ts1 name0" using ih nin by blast
      ultimately show ?thesis using p0 by (simp add: update_conv')
    next
      case False
      with m have m': "(name, parser) \<in> set ps" by simp
      then have ne: "name \<noteq> name0" using nin by force
      from ih m' obtain p where
        "map_of ?ts1 name = Some p"
        "map_of ts' name = Some (p\<lparr>rows := rows p @ parser r t ptr cs\<rparr>)" by blast
      moreover have "map_of ?ts1 name = map_of ts name" using ne by (simp add: update_conv')
      ultimately show ?thesis by simp
    qed
  next
    fix name
    assume "name \<notin> fst ` set (a # ps)"
    then have "name \<noteq> name0" "name \<notin> fst ` set ps" using a by auto
    with ih show "map_of ts' name = map_of ts name" by (auto simp: update_conv')
  qed
qed

lemma distinct_EXTRA_TABLE_PARSERS: "distinct (map fst (EXTRA_TABLE_PARSERS args))"
  by (simp add: EXTRA_TABLE_PARSERS_def)


lemma flattenRecord_cases [consumes 1]:
  assumes "flattenRecord args base n st = Inr st'"
  obtains r st1 ts1 ts2 where
    "forEachTopChild args base (tag n) (ofValue (pointer n)) [(''id'', ofValue (pointer n))]
       (children n) (st\<lparr>tables := ensureTable (tag n) [''id''] (tables st)\<rparr>) = Inr (r, st1)"
    "pushRows (tag n) [r] (tables st1) = Inr ts1"
    "runParsers (EXTRA_TABLE_PARSERS args) r (tag n) (ofValue (pointer n)) (children n) ts1 = Inr ts2"
    "st' = st1\<lparr>tables := ts2\<rparr>"
  using assms by (auto simp: flattenRecord_def Let_def split: sum.splits)






lemma tagsOf_tag: "tag n \<in> set (tagsOf n)"
  by (cases n) simp

lemma tagsOf_children: "c \<in> set (children n) \<Longrightarrow> set (tagsOf c) \<subseteq> set (tagsOf n)"
  by (cases n) auto


lemma forEachTopChild_Cons_cases [consumes 1]:
  assumes "forEachTopChild args base t ptr r (c # cs) st = Inr (r', st')"
  obtains r1 st1 r2 st2 where
    "parseChild args base t ptr r c st = Inr (r1, st1)"
    "forEachTopChild args base t ptr r2 cs st2 = Inr (r', st')"
    "promotedValueTables st2 = promotedValueTables st1"
    "(\<not> (copy_individual_names args \<and> t = ''INDI'' \<and> tag c = ''NAME'') \<and> r2 = r1 \<and> st2 = st1)
     \<or> (copy_individual_names args \<and> t = ''INDI'' \<and> tag c = ''NAME''
          \<and> r2 = AList.update ''NAME'' (ofValue (nvalue c)) r1
          \<and> (\<exists>ts. addColumn ''INDI'' ''NAME'' (tables st1) = Inr ts \<and> st2 = st1\<lparr>tables := ts\<rparr>))"
  using assms by (auto split: sum.splits if_splits)











lemma integrateTable_other:
  "integrateTable n pv ts = Inr ts' \<Longrightarrow> name \<noteq> n \<Longrightarrow> map_of ts' name = map_of ts name"
  by (auto simp: integrateTable_def addSpread_def update_conv' pushRows_def addColumn_def
      split: if_splits sum.splits list.splits option.splits)

lemma integrate_other:
  "integrate pvs ts = Inr ts' \<Longrightarrow> name \<notin> fst ` set pvs \<Longrightarrow> map_of ts' name = map_of ts name"
proof (induction pvs arbitrary: ts)
  case Nil
  then show ?case by simp
next
  case (Cons a pvs)
  obtain n pv where a: "a = (n, pv)" by (cases a)
  from Cons.prems a obtain ts1 where
    i: "integrateTable n pv ts = Inr ts1" and rest: "integrate pvs ts1 = Inr ts'"
    by (auto split: sum.splits)
  from Cons.prems(2) a have ne: "name \<noteq> n" and nin: "name \<notin> fst ` set pvs" by auto
  from integrateTable_other [OF i ne] Cons.IH [OF rest nin] show ?case by simp
qed

lemma set_objectEntries: "set (objectEntries obj) = set obj"
  by (auto simp: objectEntries_def)




section \<open>The merge of the promoted-value tables\<close>

lemma promotedTags_facts:
  "\<forall>T \<in> set promotedTags. \<not> inherited T \<and> T \<noteq> ''id'' \<and> CHR ''_'' \<notin> set (tl T) \<and> T \<noteq> []"
  by (simp add: promotedTags_def PROMOTED_VALUES_def inherited_def objectPrototype_def)

lemma promotedValuesHas_promotedTags:
  assumes "promotedValuesHas S T = Inr True"
  shows "T \<in> set promotedTags"
proof -
  from promotedValuesHas_True [OF assms] obtain s where
    m: "map_of PROMOTED_VALUES S = Some s" and mem: "T \<in> set s" by blast
  from m have "(S, s) \<in> set PROMOTED_VALUES" by (rule map_of_SomeD)
  with mem show ?thesis by (force simp: promotedTags_def)
qed

lemma junction_not_promoted:
  assumes "S \<noteq> []"
  shows "S @ ''_'' @ T' \<notin> set promotedTags"
proof
  assume m: "S @ ''_'' @ T' \<in> set promotedTags"
  from assms have "tl (S @ ''_'' @ T') = tl S @ ''_'' @ T'" by simp
  then have "CHR ''_'' \<in> set (tl (S @ ''_'' @ T'))" by simp
  with promotedTags_facts m show False by blast
qed

lemma colInv_ensure_promoted:
  "colInv base ts \<Longrightarrow> colInv base (ensureTable T [''id'', T] ts)"
  by (auto simp: colInv_def ensureTable_lookup newSet_pair split: if_splits)

lemma colInv_ensure_top:
  "T \<in> set base \<Longrightarrow> colInv base ts \<Longrightarrow> colInv base (ensureTable T cols ts)"
  by (auto simp: colInv_def ensureTable_lookup split: if_splits)

lemma colInv_pushRows:
  "pushRows n rs ts = Inr ts' \<Longrightarrow> colInv base ts \<Longrightarrow> colInv base ts'"
  by (auto simp: colInv_def pushRows_def update_conv' split: option.splits if_splits)

lemma colInv_addColumn:
  "addColumn n c ts = Inr ts' \<Longrightarrow> colInv base ts \<Longrightarrow> colInv base ts'"
  by (auto simp: colInv_def addColumn_def update_conv' setAdd_def split: option.splits if_splits)

lemma colInv_addJunctionRow:
  assumes "addJunctionRow S sid T tid st = Inr st'" and "S \<noteq> []" and "colInv base (tables st)"
  shows "colInv base (tables st')"
proof -
  from addJunctionRow_effect [OF assms(1)] have
    other: "\<forall>name. name \<noteq> S @ ''_'' @ T \<longrightarrow> map_of (tables st') name = map_of (tables st) name"
    by blast
  show ?thesis
    unfolding colInv_def
  proof (intro allI impI)
    fix U tb assume u: "U \<in> set promotedTags" "U \<notin> set base" "map_of (tables st') U = Some tb"
    from u(1) junction_not_promoted [OF assms(2)] have "U \<noteq> S @ ''_'' @ T" by auto
    with other u(3) have "map_of (tables st) U = Some tb" by simp
    with assms(3) u(1,2) show "''id'' \<in> set (columns tb) \<and> U \<in> set (columns tb)"
      unfolding colInv_def by blast
  qed
qed

lemma addPromotedValue_shape:
  assumes "addPromotedValue S sid T v st = Inr st'"
  shows "\<exists>pv' tid.
      promotedValueTables st' = AList.update T pv' (promotedValueTables st)
    \<and> pvcolumns pv' = (case map_of (promotedValueTables st) T of
                         Some pv0 \<Rightarrow> pvcolumns pv0 | None \<Rightarrow> newSet [''id'', T])
    \<and> ((case map_of (promotedValueTables st) T of
             Some pv0 \<Rightarrow> distinct (map fst (pvrows pv0)) | None \<Rightarrow> True)
         \<longrightarrow> distinct (map fst (pvrows pv')))
    \<and> addJunctionRow S sid T tid (st\<lparr>promotedValueTables := promotedValueTables st'\<rparr>) = Inr st'"
proof -
  define pvts where "pvts = (if \<not> truthyAt (promotedValueTables st) T
                  then AList.update T \<lparr>pvrows = [], pvcolumns = newSet [''id'', T]\<rparr>
                         (promotedValueTables st)
                  else promotedValueTables st)"
  from assms obtain pv0 where pv0: "map_of pvts T = Some pv0"
    by (auto simp: addPromotedValue_def Let_def pvts_def split: option.splits)
  define pv' where "pv' = (if \<not> truthyAt (pvrows pv0) (keyOf v)
                         then pv0\<lparr>pvrows := AList.update (keyOf v)
                                (AList.update T (ofValue v)
                                   [(''id'', Str (generatedId T (length (pvrows pv0))))])
                                (pvrows pv0)\<rparr>
                         else pv0)"
  define tid where "tid = (case map_of (pvrows pv') (keyOf v) of
                             Some row \<Rightarrow> cell row ''id'' | None \<Rightarrow> Undefined)"
  have aj: "addJunctionRow S sid T tid (st\<lparr>promotedValueTables := AList.update T pv' pvts\<rparr>) = Inr st'"
    using assms pv0 unfolding addPromotedValue_def Let_def pvts_def [symmetric]
    by (simp add: pv'_def tid_def)
  from addJunctionRow_pvts [OF aj] have eq: "promotedValueTables st' = AList.update T pv' pvts"
    by simp
  have up: "AList.update T pv' pvts = AList.update T pv' (promotedValueTables st)"
    by (simp add: pvts_def update_last)
  have cols: "pvcolumns pv' = pvcolumns pv0" by (simp add: pv'_def)
  have dst: "distinct (map fst (pvrows pv0)) \<longrightarrow> distinct (map fst (pvrows pv'))"
    by (simp add: pv'_def distinct_update)
  have pv0c: "pvcolumns pv0 = (case map_of (promotedValueTables st) T of
                         Some p \<Rightarrow> pvcolumns p | None \<Rightarrow> newSet [''id'', T])"
    and pv0d: "distinct (map fst (pvrows pv0))
        = (case map_of (promotedValueTables st) T of
             Some p \<Rightarrow> distinct (map fst (pvrows p)) | None \<Rightarrow> True)"
    using pv0 by (auto simp: pvts_def truthyAt_def update_conv' split: if_splits option.splits)
  show ?thesis
    using eq up cols dst pv0c pv0d aj by (intro exI [of _ pv'] exI [of _ tid]) simp
qed

lemma inv_addPromotedValue:
  assumes ap: "addPromotedValue S sid T v st = Inr st'" and s: "S \<noteq> []"
    and t: "T \<in> set promotedTags" and nb: "T \<notin> set base"
    and ci: "colInv base (tables st)" and pi: "pvInv base (promotedValueTables st)"
  shows "colInv base (tables st') \<and> pvInv base (promotedValueTables st')"
proof -
  from addPromotedValue_shape [OF ap] obtain pv' tid where
    eq: "promotedValueTables st' = AList.update T pv' (promotedValueTables st)"
    and cols: "pvcolumns pv' = (case map_of (promotedValueTables st) T of
                         Some pv0 \<Rightarrow> pvcolumns pv0 | None \<Rightarrow> newSet [''id'', T])"
    and dst: "(case map_of (promotedValueTables st) T of
             Some pv0 \<Rightarrow> distinct (map fst (pvrows pv0)) | None \<Rightarrow> True)
         \<longrightarrow> distinct (map fst (pvrows pv'))"
    and aj: "addJunctionRow S sid T tid (st\<lparr>promotedValueTables := promotedValueTables st'\<rparr>) = Inr st'"
    by blast
  from colInv_addJunctionRow [OF aj s] ci have c: "colInv base (tables st')" by simp
  from t promotedTags_facts have nid: "T \<noteq> ''id''" by blast
  have c2: "pvcolumns pv' = [''id'', T]"
    using cols pi nid unfolding pvInv_def
    by (cases "map_of (promotedValueTables st) T") (simp_all add: newSet_pair)
  have d2: "distinct (map fst (pvrows pv'))"
    using dst pi unfolding pvInv_def
    by (cases "map_of (promotedValueTables st) T") auto
  have "pvInv base (AList.update T pv' (promotedValueTables st))"
    using pi t nb c2 d2 unfolding pvInv_def
    by (auto simp: distinct_update update_conv')
  with c eq show ?thesis by simp
qed

lemma inv_plainColumn:
  assumes "plainColumn args t r ct cv st = Inr (r', st')"
    and "colInv base (tables st)" and "pvInv base (promotedValueTables st)"
  shows "colInv base (tables st') \<and> pvInv base (promotedValueTables st')"
  using assms
  by (auto simp: plainColumn_def Let_def split: sum.splits dest: colInv_addColumn)

lemma inv_engine:
  "parseChild args base t ptr r c st = Inr (r', st') \<Longrightarrow>
     t \<noteq> [] \<Longrightarrow> [] \<notin> set (tagsOf c) \<Longrightarrow>
     colInv base (tables st) \<Longrightarrow> pvInv base (promotedValueTables st) \<Longrightarrow>
     colInv base (tables st') \<and> pvInv base (promotedValueTables st')"
  "parsePromotedRecord args base S sid n st = Inr st'' \<Longrightarrow>
     S \<noteq> [] \<Longrightarrow> [] \<notin> set (tagsOf n) \<Longrightarrow>
     colInv base (tables st) \<Longrightarrow> pvInv base (promotedValueTables st) \<Longrightarrow>
     colInv base (tables st'') \<and> pvInv base (promotedValueTables st'')"
  "forEachChild args base t ptr r cs st = Inr (r', st') \<Longrightarrow>
     t \<noteq> [] \<Longrightarrow> \<forall>c \<in> set cs. [] \<notin> set (tagsOf c) \<Longrightarrow>
     colInv base (tables st) \<Longrightarrow> pvInv base (promotedValueTables st) \<Longrightarrow>
     colInv base (tables st') \<and> pvInv base (promotedValueTables st')"
proof (induction args base t ptr r c st and args base S sid n st and args base t ptr r cs st
    arbitrary: r' st' and st'' and r' st'
    rule: parseChild_parsePromotedRecord_forEachChild.induct)
  case (1 args base t ptr r childRecord st)
  from "1.prems"(1) show ?case
  proof (cases rule: parseChild_cases)
    case (link target)
    then show ?thesis
      using colInv_addJunctionRow [OF link(2) "1.prems"(2) "1.prems"(4)]
        addJunctionRow_pvts [OF link(2)] "1.prems"(5) by simp
  next
    case sibling
    then show ?thesis
      using colInv_addJunctionRow [OF sibling(3) "1.prems"(2) "1.prems"(4)]
        addJunctionRow_pvts [OF sibling(3)] "1.prems"(5) by simp
  next
    case promotedValue
    from inv_addPromotedValue [OF promotedValue(4) "1.prems"(2)
        promotedValuesHas_promotedTags [OF promotedValue(3)] promotedValue(2)
        "1.prems"(4) "1.prems"(5)]
    show ?thesis .
  next
    case promotedRecord
    then show ?thesis using "1.IH" "1.prems" by simp
  next
    case nullValue
    then show ?thesis using "1.prems" by simp
  next
    case plain
    from inv_plainColumn [OF plain(6) "1.prems"(4) "1.prems"(5)] show ?thesis .
  qed
next
  case (2 args base sourceTable sourceId promotedRecord st)
  have nt: "tag promotedRecord \<noteq> []" using "2.prems"(3) tagsOf_tag [of promotedRecord] by auto
  have sub: "\<forall>c \<in> set (children promotedRecord). [] \<notin> set (tagsOf c)"
    using "2.prems"(3) tagsOf_children [of _ promotedRecord] by blast
  from "2.prems"(1) show ?case
  proof (cases rule: parsePromotedRecord_cases)
    case (1 ident st1 r st2 ts')
    have c0: "colInv base (ensureTable (tag promotedRecord) [''id'', tag promotedRecord] (tables st))"
      by (rule colInv_ensure_promoted [OF "2.prems"(4)])
    have c1: "colInv base (tables st1)"
      using colInv_addJunctionRow [OF 1(2) "2.prems"(2)] c0 by simp
    have p1: "pvInv base (promotedValueTables st1)"
      using addJunctionRow_pvts [OF 1(2)] "2.prems"(5) by simp
    note ih = "2.IH" [OF refl 1(1) 1(2) 1(3) nt sub c1 p1]
    from ih colInv_pushRows [OF 1(4)] 1(5) show ?thesis by simp
  qed
next
  case (3 args base t ptr r st)
  then show ?case by simp
next
  case (4 args base t ptr r childRecord rest st)
  from "4.prems"(1) show ?case
  proof (cases rule: forEachChild_Cons_cases)
    case (1 r1 st1)
    have a: "colInv base (tables st1) \<and> pvInv base (promotedValueTables st1)"
      using "4.IH"(1) [OF 1(1) "4.prems"(2)] "4.prems"(3,4,5) by simp
    show ?thesis
      using "4.IH"(2) [OF 1(1) refl 1(2) "4.prems"(2)] "4.prems"(3) a by simp
  qed
qed

lemma inv_forEachTopChild:
  "forEachTopChild args base t ptr r cs st = Inr (r', st') \<Longrightarrow>
     t \<noteq> [] \<Longrightarrow> \<forall>c \<in> set cs. [] \<notin> set (tagsOf c) \<Longrightarrow>
     colInv base (tables st) \<Longrightarrow> pvInv base (promotedValueTables st) \<Longrightarrow>
     colInv base (tables st') \<and> pvInv base (promotedValueTables st')"
proof (induction cs arbitrary: r st)
  case Nil
  then show ?case by simp
next
  case (Cons c cs)
  from Cons.prems(1) show ?case
  proof (cases rule: forEachTopChild_Cons_cases)
    case (1 r1 st1 r2 st2)
    have a: "colInv base (tables st1) \<and> pvInv base (promotedValueTables st1)"
      using inv_engine(1) [OF 1(1) Cons.prems(2)] Cons.prems(3,4,5) by simp
    have b: "colInv base (tables st2)"
      using 1(4) a by (auto dest: colInv_addColumn)
    show ?thesis
      using Cons.IH [OF 1(2) Cons.prems(2)] Cons.prems(3) a b 1(3) by simp
  qed
qed

lemma colInv_runParsers:
  "runParsers ps r t ptr cs ts = Inr ts' \<Longrightarrow> colInv base ts \<Longrightarrow> colInv base ts'"
proof (induction ps arbitrary: ts)
  case Nil
  then show ?case by simp
next
  case (Cons a ps)
  obtain name parser where a: "a = (name, parser)" by (cases a)
  from Cons.prems a obtain ts1 where
    p: "pushRows name (parser r t ptr cs) ts = Inr ts1" and
    rest: "runParsers ps r t ptr cs ts1 = Inr ts'"
    by (auto split: sum.splits)
  from Cons.IH [OF rest colInv_pushRows [OF p Cons.prems(2)]] show ?case .
qed

lemma inv_flattenRecord:
  assumes "flattenRecord args base g st = Inr st'" and "tag g \<in> set base"
    and "[] \<notin> set (tagsOf g)"
    and "colInv base (tables st)" and "pvInv base (promotedValueTables st)"
  shows "colInv base (tables st') \<and> pvInv base (promotedValueTables st')"
  using assms(1)
proof (cases rule: flattenRecord_cases)
  case (1 r st1 ts1 ts2)
  have nt: "tag g \<noteq> []" using assms(3) tagsOf_tag [of g] by auto
  have sub: "\<forall>c \<in> set (children g). [] \<notin> set (tagsOf c)"
    using assms(3) tagsOf_children [of _ g] by blast
  have c0: "colInv base (ensureTable (tag g) [''id''] (tables st))"
    by (rule colInv_ensure_top [OF assms(2) assms(4)])
  from inv_forEachTopChild [OF 1(1) nt sub] c0 assms(5)
  have a: "colInv base (tables st1) \<and> pvInv base (promotedValueTables st1)" by simp
  from colInv_runParsers [OF 1(3) colInv_pushRows [OF 1(2)]] a 1(4) show ?thesis by simp
qed

lemma inv_forEachRecord:
  "forEachRecord args base recs st = Inr st' \<Longrightarrow> tag ` set recs \<subseteq> set base \<Longrightarrow>
   \<forall>g \<in> set recs. [] \<notin> set (tagsOf g) \<Longrightarrow>
   colInv base (tables st) \<Longrightarrow> pvInv base (promotedValueTables st) \<Longrightarrow>
   colInv base (tables st') \<and> pvInv base (promotedValueTables st')"
proof (induction recs arbitrary: st)
  case Nil
  then show ?case by simp
next
  case (Cons g recs)
  from Cons.prems(1) obtain st1 where
    f: "flattenRecord args base g st = Inr st1" and
    rest: "forEachRecord args base recs st1 = Inr st'"
    by (auto split: sum.splits)
  from Cons.prems(2) have tg: "tag g \<in> set base" and tr: "tag ` set recs \<subseteq> set base" by auto
  from Cons.prems(3) have ng: "[] \<notin> set (tagsOf g)"
    and nr: "\<forall>g \<in> set recs. [] \<notin> set (tagsOf g)" by simp_all
  from inv_flattenRecord [OF f tg ng Cons.prems(4) Cons.prems(5)]
  have a: "colInv base (tables st1) \<and> pvInv base (promotedValueTables st1)" .
  from Cons.IH [OF rest tr nr] a show ?case by simp
qed

lemma inv_flattenAll:
  assumes "flattenAll args allRecords = Inr st"
    and "\<forall>g \<in> set allRecords. [] \<notin> set (tagsOf g)"
  shows "colInv (map tag allRecords) (tables st)
       \<and> pvInv (map tag allRecords) (promotedValueTables st)"
proof -
  let ?st0 = "\<lparr>tables = EXTRA_TABLES args, promotedValueTables = []\<rparr>"
  from assms(1) have run: "forEachRecord args (map tag allRecords) allRecords ?st0 = Inr st"
    by (simp add: flattenAll_def)
  have c0: "colInv (map tag allRecords) (tables ?st0)"
    by (auto simp: colInv_def EXTRA_TABLES_def promotedTags_def PROMOTED_VALUES_def
        split: if_splits)
  have p0: "pvInv (map tag allRecords) (promotedValueTables ?st0)"
    by (simp add: pvInv_def)
  from inv_forEachRecord [OF run _ assms(2) c0 p0] show ?thesis by simp
qed

lemma distinct_objectEntries:
  assumes "distinct (map fst obj)"
  shows "distinct (map fst (objectEntries obj))"
proof -
  let ?P = "\<lambda>kv :: string \<times> 'a. isArrayIndex (fst kv)"
  let ?k = "\<lambda>kv :: string \<times> 'a. readNat (fst kv)"
  have d: "distinct obj" and inj: "inj_on fst (set obj)"
    using assms by (simp_all add: distinct_map)
  have a: "distinct (map fst (sort_key ?k (filter ?P obj)))"
    using d inj by (simp add: distinct_map inj_on_def)
  have b: "distinct (map fst (filter (\<lambda>kv. \<not> ?P kv) obj))"
    using assms by (rule distinct_map_filter)
  have c: "set (map fst (sort_key ?k (filter ?P obj)))
             \<inter> set (map fst (filter (\<lambda>kv. \<not> ?P kv) obj)) = {}"
    by auto
  from a b c show ?thesis unfolding objectEntries_def by simp
qed

lemma integrateTable_at:
  assumes "\<not> inherited name" and "pvcolumns pv \<noteq> []"
  shows "\<exists>ts'. integrateTable name pv ts = Inr ts'
     \<and> map_of ts' name = Some (case map_of ts name of
          Some tb \<Rightarrow> \<lparr>rows = rows tb @ objectValues (pvrows pv),
                      columns = setAdd (hd (pvcolumns pv)) (columns tb)\<rparr>
        | None \<Rightarrow> \<lparr>rows = objectValues (pvrows pv), columns = pvcolumns pv\<rparr>)"
proof (cases "map_of ts name")
  case None
  with assms show ?thesis
    by (simp add: integrateTable_def truthyAt_def update_conv')
next
  case (Some tb)
  from assms(2) obtain c cs where cs: "pvcolumns pv = c # cs" by (cases "pvcolumns pv") auto
  with Some assms(1) show ?thesis
    by (simp add: integrateTable_def truthyAt_def addSpread_def addColumn_def pushRows_def
        update_conv')
qed

lemma integrate_result:
  "distinct (map fst pvs) \<Longrightarrow> \<forall>(n, p) \<in> set pvs. \<not> inherited n \<and> pvcolumns p \<noteq> [] \<Longrightarrow>
   \<exists>ts'. integrate pvs ts = Inr ts'
     \<and> (\<forall>name pv. (name, pv) \<in> set pvs \<longrightarrow>
          map_of ts' name = Some (case map_of ts name of
            Some tb \<Rightarrow> \<lparr>rows = rows tb @ objectValues (pvrows pv),
                        columns = setAdd (hd (pvcolumns pv)) (columns tb)\<rparr>
          | None \<Rightarrow> \<lparr>rows = objectValues (pvrows pv), columns = pvcolumns pv\<rparr>))"
proof (induction pvs arbitrary: ts)
  case Nil
  then show ?case by simp
next
  case (Cons a pvs)
  obtain n p where a: "a = (n, p)" by (cases a)
  from Cons.prems a have d: "distinct (map fst pvs)" and nin: "n \<notin> fst ` set pvs"
    and ok: "\<not> inherited n" "pvcolumns p \<noteq> []"
    and oks: "\<forall>(n, p) \<in> set pvs. \<not> inherited n \<and> pvcolumns p \<noteq> []"
    by auto
  from integrateTable_at [OF ok, of ts] obtain ts1 where
    i: "integrateTable n p ts = Inr ts1" and
    at: "map_of ts1 n = Some (case map_of ts n of
          Some tb \<Rightarrow> \<lparr>rows = rows tb @ objectValues (pvrows p),
                      columns = setAdd (hd (pvcolumns p)) (columns tb)\<rparr>
        | None \<Rightarrow> \<lparr>rows = objectValues (pvrows p), columns = pvcolumns p\<rparr>)"
    by blast
  from Cons.IH [OF d oks, of ts1] obtain ts' where
    r: "integrate pvs ts1 = Inr ts'" and
    all: "\<forall>name pv. (name, pv) \<in> set pvs \<longrightarrow>
          map_of ts' name = Some (case map_of ts1 name of
            Some tb \<Rightarrow> \<lparr>rows = rows tb @ objectValues (pvrows pv),
                        columns = setAdd (hd (pvcolumns pv)) (columns tb)\<rparr>
          | None \<Rightarrow> \<lparr>rows = objectValues (pvrows pv), columns = pvcolumns pv\<rparr>)"
    by blast
  have run: "integrate (a # pvs) ts = Inr ts'" using a i r by simp
  have "\<forall>name pv. (name, pv) \<in> set (a # pvs) \<longrightarrow>
          map_of ts' name = Some (case map_of ts name of
            Some tb \<Rightarrow> \<lparr>rows = rows tb @ objectValues (pvrows pv),
                        columns = setAdd (hd (pvcolumns pv)) (columns tb)\<rparr>
          | None \<Rightarrow> \<lparr>rows = objectValues (pvrows pv), columns = pvcolumns pv\<rparr>)"
  proof (intro allI impI)
    fix name pv assume m: "(name, pv) \<in> set (a # pvs)"
    show "map_of ts' name = Some (case map_of ts name of
            Some tb \<Rightarrow> \<lparr>rows = rows tb @ objectValues (pvrows pv),
                        columns = setAdd (hd (pvcolumns pv)) (columns tb)\<rparr>
          | None \<Rightarrow> \<lparr>rows = objectValues (pvrows pv), columns = pvcolumns pv\<rparr>)"
    proof (cases "(name, pv) = a")
      case True
      then have e: "name = n" "pv = p" using a by simp_all
      from integrate_other [OF r nin] at show ?thesis unfolding e by simp
    next
      case False
      with m have m': "(name, pv) \<in> set pvs" by simp
      then have ne: "name \<noteq> n" using nin by force
      from integrateTable_other [OF i ne] all m' show ?thesis by simp
    qed
  qed
  with run show ?case by blast
qed

text \<open>
  Claim C2. Let the loop over the top-level nodes return, for an input in which no tag is
  empty; a GEDCOM line has a tag of at least one character, so this holds of every tree
  that the parser returns. Then the integration pass returns, and for every promoted-value
  table \<open>pv\<close> that the run has accumulated, of name \<open>name\<close>: its columns are \<^verbatim>\<open>id\<close> and
  \<open>name\<close> and its rows have different keys; when the registry holds a table of that name,
  the merged table has the rows of that table followed by \<^verbatim>\<open>Object.values\<close> of the rows
  of \<open>pv\<close>, and its column set is the union of the two column sets; when the registry
  holds no table of that name, the new table has the rows and the columns of \<open>pv\<close>.
  \<^verbatim>\<open>columns.add(...columns)\<close> adds \<^verbatim>\<open>id\<close> only, the first column of \<open>pv\<close>: the union
  is reached because a table that bears the name of a promoted tag was created for a
  promoted sub-record, with the columns \<^verbatim>\<open>id\<close> and \<open>name\<close>.
\<close>

theorem integration_pass:
  assumes "flattenAll args allRecords = Inr st"
    and "\<forall>g \<in> set allRecords. [] \<notin> set (tagsOf g)"
    and "map_of (promotedValueTables st) name = Some pv"
  shows "\<exists>final merged.
      convert args allRecords = Inr final
    \<and> map_of final name = Some merged
    \<and> pvcolumns pv = [''id'', name]
    \<and> distinct (map fst (pvrows pv))
    \<and> (case map_of (tables st) name of
         Some tb \<Rightarrow>
           rows merged = rows tb @ objectValues (pvrows pv)
           \<and> set (columns merged) = set (columns tb) \<union> set (pvcolumns pv)
           \<and> columns merged = columns tb
       | None \<Rightarrow> merged = \<lparr>rows = objectValues (pvrows pv), columns = pvcolumns pv\<rparr>)"
proof -
  let ?base = "map tag allRecords"
  from inv_flattenAll [OF assms(1) assms(2)] have
    ci: "colInv ?base (tables st)" and pi: "pvInv ?base (promotedValueTables st)" by simp_all
  from pi have d: "distinct (map fst (promotedValueTables st))" by (simp add: pvInv_def)
  from pi assms(3) have pt: "name \<in> set promotedTags" and nb: "name \<notin> set ?base"
    and pc: "pvcolumns pv = [''id'', name]" and pd: "distinct (map fst (pvrows pv))"
    unfolding pvInv_def by blast+
  have ok: "\<forall>(n, p) \<in> set (objectEntries (promotedValueTables st)).
              \<not> inherited n \<and> pvcolumns p \<noteq> []"
  proof (clarify, intro conjI)
    fix n p assume "(n, p) \<in> set (objectEntries (promotedValueTables st))"
    then have "(n, p) \<in> set (promotedValueTables st)" by (simp add: set_objectEntries)
    with d have "map_of (promotedValueTables st) n = Some p" by simp
    with pi have "n \<in> set promotedTags" "pvcolumns p = [''id'', n]"
      unfolding pvInv_def by blast+
    with promotedTags_facts show "\<not> inherited n" "pvcolumns p \<noteq> []" by auto
  qed
  from integrate_result [OF distinct_objectEntries [OF d] ok, of "tables st"] obtain final where
    run: "integrate (objectEntries (promotedValueTables st)) (tables st) = Inr final" and
    all: "\<forall>name pv. (name, pv) \<in> set (objectEntries (promotedValueTables st)) \<longrightarrow>
          map_of final name = Some (case map_of (tables st) name of
            Some tb \<Rightarrow> \<lparr>rows = rows tb @ objectValues (pvrows pv),
                        columns = setAdd (hd (pvcolumns pv)) (columns tb)\<rparr>
          | None \<Rightarrow> \<lparr>rows = objectValues (pvrows pv), columns = pvcolumns pv\<rparr>)"
    by blast
  have conv: "convert args allRecords = Inr final"
    using assms(1) run by (simp add: convert_def)
  from assms(3) have "(name, pv) \<in> set (promotedValueTables st)" by (rule map_of_SomeD)
  then have mem: "(name, pv) \<in> set (objectEntries (promotedValueTables st))"
    by (simp add: set_objectEntries)
  note fin = all [rule_format, OF mem]
  show ?thesis
  proof (cases "map_of (tables st) name")
    case None
    with fin conv pc pd show ?thesis by simp
  next
    case (Some tb)
    from ci pt nb Some have cols: "''id'' \<in> set (columns tb)" "name \<in> set (columns tb)"
      unfolding colInv_def by blast+
    with fin conv pc pd Some show ?thesis by (auto simp: setAdd_def)
  qed
qed

theorem integration_pass_witness:
  "[] \<notin> set (tagsOf (Node ''FAM'' (Some ''@F1@'') None
              [Node ''TITL'' None (Some ''Lord'') [Node ''NOTE'' None (Some ''x'') []]]))
   \<and> [] \<notin> set (tagsOf (Node ''INDI'' (Some ''@I1@'') None
              [Node ''TITL'' None (Some ''Sir'') [], Node ''TITL'' None (Some ''Sir'') []]))
   \<and> (\<exists>st pv tb final merged.
         flattenAll plainArgs
           [Node ''FAM'' (Some ''@F1@'') None
              [Node ''TITL'' None (Some ''Lord'') [Node ''NOTE'' None (Some ''x'') []]],
            Node ''INDI'' (Some ''@I1@'') None
              [Node ''TITL'' None (Some ''Sir'') [], Node ''TITL'' None (Some ''Sir'') []]]
           = Inr st
       \<and> map_of (promotedValueTables st) ''TITL'' = Some pv
       \<and> pv = \<lparr>pvrows = [(''Sir'', [(''id'', Str ''@gedcom-to-csv_generated_TITL0@''),
                                      (''TITL'', Str ''Sir'')])],
                 pvcolumns = [''id'', ''TITL'']\<rparr>
       \<and> map_of (tables st) ''TITL'' = Some tb
       \<and> tb = \<lparr>rows = [[(''id'', Str ''@TITL0@''), (''TITL'', Str ''Lord''), (''NOTE'', Str ''x'')]],
                 columns = [''id'', ''TITL'', ''NOTE'']\<rparr>
       \<and> convert plainArgs
           [Node ''FAM'' (Some ''@F1@'') None
              [Node ''TITL'' None (Some ''Lord'') [Node ''NOTE'' None (Some ''x'') []]],
            Node ''INDI'' (Some ''@I1@'') None
              [Node ''TITL'' None (Some ''Sir'') [], Node ''TITL'' None (Some ''Sir'') []]]
           = Inr final
       \<and> map_of final ''TITL'' = Some merged
       \<and> rows merged = [[(''id'', Str ''@TITL0@''), (''TITL'', Str ''Lord''), (''NOTE'', Str ''x'')],
                         [(''id'', Str ''@gedcom-to-csv_generated_TITL0@''), (''TITL'', Str ''Sir'')]]
       \<and> columns merged = [''id'', ''TITL'', ''NOTE''])"
proof -
  let ?recs = "[Node ''FAM'' (Some ''@F1@'') None
              [Node ''TITL'' None (Some ''Lord'') [Node ''NOTE'' None (Some ''x'') []]],
            Node ''INDI'' (Some ''@I1@'') None
              [Node ''TITL'' None (Some ''Sir'') [], Node ''TITL'' None (Some ''Sir'') []]]"
  let ?pv = "\<lparr>pvrows = [(''Sir'', [(''id'', Str ''@gedcom-to-csv_generated_TITL0@''),
                                      (''TITL'', Str ''Sir'')])],
                 pvcolumns = [''id'', ''TITL'']\<rparr>"
  let ?tb = "\<lparr>rows = [[(''id'', Str ''@TITL0@''), (''TITL'', Str ''Lord''), (''NOTE'', Str ''x'')]],
                 columns = [''id'', ''TITL'', ''NOTE'']\<rparr>"
  let ?st = "\<lparr>tables =
        [(''FAM'', \<lparr>rows = [[(''id'', Str ''@F1@'')]], columns = [''id'']\<rparr>),
         (''TITL'', ?tb),
         (''FAM_TITL'', \<lparr>rows = [[(''FAM'', Str ''@F1@''), (''TITL'', Str ''@TITL0@'')]],
                        columns = [''FAM'', ''TITL'']\<rparr>),
         (''INDI'', \<lparr>rows = [[(''id'', Str ''@I1@'')]], columns = [''id'']\<rparr>),
         (''INDI_TITL'',
          \<lparr>rows = [[(''INDI'', Str ''@I1@''), (''TITL'', Str ''@gedcom-to-csv_generated_TITL0@'')],
                    [(''INDI'', Str ''@I1@''), (''TITL'', Str ''@gedcom-to-csv_generated_TITL0@'')]],
             columns = [''INDI'', ''TITL'']\<rparr>)],
        promotedValueTables = [(''TITL'', ?pv)]\<rparr>"
  have run: "flattenAll plainArgs ?recs = Inr ?st"
    by (simp add: plainArgs_def run_defs)
  have wf: "\<forall>g \<in> set ?recs. [] \<notin> set (tagsOf g)" by simp
  have pvf: "map_of (promotedValueTables ?st) ''TITL'' = Some ?pv" by simp
  have tbf: "map_of (tables ?st) ''TITL'' = Some ?tb" by simp
  from integration_pass [OF run wf pvf] obtain final merged where
    conv: "convert plainArgs ?recs = Inr final" and m: "map_of final ''TITL'' = Some merged"
    and c: "case map_of (tables ?st) ''TITL'' of
         Some tb \<Rightarrow>
           rows merged = rows tb @ objectValues (pvrows ?pv)
           \<and> set (columns merged) = set (columns tb) \<union> set (pvcolumns ?pv)
           \<and> columns merged = columns tb
       | None \<Rightarrow> merged = \<lparr>rows = objectValues (pvrows ?pv), columns = pvcolumns ?pv\<rparr>"
    by blast
  from c have "rows merged = rows ?tb @ objectValues (pvrows ?pv)" "columns merged = columns ?tb"
    unfolding tbf by simp_all
  then have r: "rows merged
        = [[(''id'', Str ''@TITL0@''), (''TITL'', Str ''Lord''), (''NOTE'', Str ''x'')],
           [(''id'', Str ''@gedcom-to-csv_generated_TITL0@''), (''TITL'', Str ''Sir'')]]"
    and cm: "columns merged = [''id'', ''TITL'', ''NOTE'']"
    by (simp_all add: run_defs)
  have "\<exists>st pv tb final merged.
         flattenAll plainArgs ?recs = Inr st
       \<and> map_of (promotedValueTables st) ''TITL'' = Some pv \<and> pv = ?pv
       \<and> map_of (tables st) ''TITL'' = Some tb \<and> tb = ?tb
       \<and> convert plainArgs ?recs = Inr final
       \<and> map_of final ''TITL'' = Some merged
       \<and> rows merged = [[(''id'', Str ''@TITL0@''), (''TITL'', Str ''Lord''), (''NOTE'', Str ''x'')],
                         [(''id'', Str ''@gedcom-to-csv_generated_TITL0@''), (''TITL'', Str ''Sir'')]]
       \<and> columns merged = [''id'', ''TITL'', ''NOTE'']"
    apply (rule exI [of _ ?st], rule exI [of _ ?pv], rule exI [of _ ?tb],
        rule exI [of _ final], rule exI [of _ merged])
    using run pvf tbf conv m r cm apply simp
    done
  then show ?thesis by simp
qed

section \<open>The value formatter: its cases\<close>

lemmas split_defs = jsSplit_def compile_def parseGroup_def special_def toItem_def canonical_def
  lineTerminator_def FORCE_DATE_REGEX_def

lemma formatValue_parsed:
  "newDate args s = Some ms \<Longrightarrow> formatValue args ''DATE'' (Some s) = Str (isoDate ms)"
  by (simp add: formatValue_def)

lemma formatValue_passthrough:
  "newDate args s = None \<Longrightarrow> force_date_parsing args = None \<Longrightarrow>
   formatValue args ''DATE'' (Some s) = Str s"
  by (simp add: formatValue_def)

lemma formatValue_forced:
  "newDate args s = None \<Longrightarrow> force_date_parsing args = Some delimiters \<Longrightarrow>
   formatValue args ''DATE'' (Some s) =
     (if List.map_filter (newDate args) (regexSplit args (FORCE_DATE_REGEX delimiters) s) = []
      then Undefined
      else Str (isoDate (meanMillis
             (List.map_filter (newDate args) (regexSplit args (FORCE_DATE_REGEX delimiters) s)))))"
  by (simp add: formatValue_def Let_def)

lemma formatValue_other: "t \<noteq> ''DATE'' \<Longrightarrow> formatValue args t v = ofValue v"
  by (simp add: formatValue_def)

lemma years_1780_1790:
  "isoDate (-5995814400000) = ''1780-01-01'' \<and> isoDate (-5680195200000) = ''1790-01-01''
   \<and> isoDate (meanMillis [-5995814400000, -5680195200000]) = ''1784-12-31''
   \<and> isoDate (-6106060800000) = ''1776-07-04''"
  by (simp add: run_defs)

lemma mean_in_double_precision:
  "meanMillis [8640000000000000, 8639999999999999] = 8640000000000000
   \<and> isoDate (meanMillis [8640000000000000, 8639999999999999]) = ''+275760-09-13''
   \<and> meanMillis [8639999999999999, 8639999999999999, 8639999999999999,
                   8639999999999999, 8639999999999999] = 8639999999999998
   \<and> meanMillis [8639999999999997, 8639999999999999, 8639999999999999] = 8639999999999999
   \<and> meanMillis [9580396284144, -3462630277569, -8639999999999992, -8639999999999942,
                   8639999999999985, -8639999999999975] = -2878980372332225
   \<and> meanMillis [-1, -2] = -1 \<and> meanMillis [7, 8, 9, 11] = 8"
  by (simp add: run_defs)

section \<open>Inputs on which the script departs from its description\<close>

text \<open>
  Claim C3 at the value \<^verbatim>\<open>constructor\<close>. Two individuals have the occupation
  \<^verbatim>\<open>constructor\<close>. The rows of the promoted-value table are an object literal, so
  \<^verbatim>\<open>rows['constructor']\<close> is the inherited \<^verbatim>\<open>Object\<close> function: the test
  \<^verbatim>\<open>!promotedValueTables[targetTable].rows[targetValue]\<close> fails, no row is stored, and
  the junction rows get \<^verbatim>\<open>Object.id\<close>, which is \<^verbatim>\<open>undefined\<close>. The table \<^verbatim>\<open>OCCU\<close>
  ends without any row for that value and no source is linked to a synthesized id.
\<close>

theorem promoted_value_inherited_key:
  "convert plainArgs
     [Node ''INDI'' (Some ''@I1@'') None [Node ''OCCU'' None (Some ''constructor'') []],
      Node ''INDI'' (Some ''@I2@'') None [Node ''OCCU'' None (Some ''constructor'') []]]
   = Inr [(''INDI'', \<lparr>rows = [[(''id'', Str ''@I1@'')], [(''id'', Str ''@I2@'')]],
                      columns = [''id'']\<rparr>),
          (''INDI_OCCU'', \<lparr>rows = [[(''INDI'', Str ''@I1@''), (''OCCU'', Undefined)],
                                     [(''INDI'', Str ''@I2@''), (''OCCU'', Undefined)]],
                           columns = [''INDI'', ''OCCU'']\<rparr>),
          (''OCCU'', \<lparr>rows = [], columns = [''id'', ''OCCU'']\<rparr>)]"
  by (simp add: plainArgs_def run_defs)

text \<open>
  Claim C8 at an individual with two names. \<^verbatim>\<open>record.NAME = childRecord.value\<close> runs for
  every child tagged \<^verbatim>\<open>NAME\<close>, so the column ends with the value of the last one, not of
  the first.
\<close>

theorem copied_name_is_last:
  "convert (plainArgs\<lparr>copy_individual_names := True\<rparr>)
     [Node ''INDI'' (Some ''@I1@'') None
        [Node ''NAME'' None (Some ''Mary /Smith/'') [Node ''SURN'' None (Some ''Smith'') []],
         Node ''NAME'' None (Some ''Mary /Jones/'') [Node ''SURN'' None (Some ''Jones'') []]]]
   = Inr [(''INDI'', \<lparr>rows = [[(''id'', Str ''@I1@''), (''NAME'', Str ''Mary /Jones/'')]],
                      columns = [''id'', ''NAME'']\<rparr>),
          (''NAME'', \<lparr>rows = [[(''id'', Str ''@NAME0@''), (''NAME'', Str ''Mary /Smith/''),
                                 (''SURN'', Str ''Smith'')],
                                [(''id'', Str ''@NAME1@''), (''NAME'', Str ''Mary /Jones/''),
                                 (''SURN'', Str ''Jones'')]],
                      columns = [''id'', ''NAME'', ''SURN'']\<rparr>),
          (''INDI_NAME'', \<lparr>rows = [[(''INDI'', Str ''@I1@''), (''NAME'', Str ''@NAME0@'')],
                                     [(''INDI'', Str ''@I1@''), (''NAME'', Str ''@NAME1@'')]],
                           columns = [''INDI'', ''NAME'']\<rparr>)]"
  by (simp add: plainArgs_def run_defs)

text \<open>
  Claim C1 at a junction table named \<^verbatim>\<open>__proto__\<close>. The top-level node is tagged \<^verbatim>\<open>_\<close>
  and its child \<^verbatim>\<open>proto__\<close>; neither tag names a member of \<^verbatim>\<open>Object.prototype\<close>. The
  child has a child of its own, so the promoted-record rule applies, and
  \<^verbatim>\<open>addJunctionRow\<close> builds the name \<^verbatim>\<open>__proto__\<close>. \<^verbatim>\<open>tables['__proto__']\<close> is
  \<^verbatim>\<open>Object.prototype\<close>, which is truthy and has no \<^verbatim>\<open>rows\<close>: no table is created and
  \<^verbatim>\<open>tables[junctionTable].rows.push\<close> throws a \<^verbatim>\<open>TypeError\<close>. The sibling-table rule
  throws in the same way when \<^verbatim>\<open>proto__\<close> is also the tag of a top-level node.
\<close>

theorem junction_name_raises:
  "junctionName ''_'' ''proto__'' = ''__proto__''
   \<and> parseChild plainArgs [''_''] ''_'' (Str ''@X1@'') [(''id'', Str ''@X1@'')]
       (Node ''proto__'' None (Some ''v'') [Node ''NOTE'' None (Some ''n'') []])
       \<lparr>tables = [(''_'', \<lparr>rows = [], columns = [''id'']\<rparr>)], promotedValueTables = []\<rparr>
     = Inl TypeError
   \<and> convert plainArgs
       [Node ''_'' (Some ''@X1@'') None
          [Node ''proto__'' None (Some ''v'') [Node ''NOTE'' None (Some ''n'') []]]]
     = Inl TypeError
   \<and> convert plainArgs
       [Node ''_'' (Some ''@X1@'') None [Node ''proto__'' None (Some ''@Y1@'') []],
        Node ''proto__'' (Some ''@Y1@'') None []]
     = Inl TypeError"
  by (simp add: plainArgs_def run_defs)

text \<open>
  Claim C5 at its own example, the delimiters \<^verbatim>\<open>abt.\<close> and \<^verbatim>\<open>-\<close>. The expression built
  by the template literal is \<^verbatim>\<open>(?:s*abt.s*)|(?:s*-s*)\<close>: each delimiter is wrapped to
  consume the letters \<^verbatim>\<open>s\<close> around it, not white space. The split of
  \<^verbatim>\<open>Abt. 1780 - 1790\<close> gives the empty string and the fragments \<^verbatim>\<open>" 1780 "\<close> and
  \<^verbatim>\<open>" 1790"\<close>, which keep their blanks; and a letter \<^verbatim>\<open>s\<close> next to a delimiter is lost.
\<close>

theorem forced_date_fragments:
  "FORCE_DATE_REGEX [''abt.'', ''-''] = ''(?:s*abt.s*)|(?:s*-s*)''
   \<and> jsSplit (FORCE_DATE_REGEX [''abt.'', ''-'']) ''Abt. 1780 - 1790''
       = Some ['''', '' 1780 '', '' 1790'']
   \<and> jsSplit (FORCE_DATE_REGEX [''-'']) ''Dec 1780-sep 1790'' = Some [''Dec 1780'', ''ep 1790'']"
  by (simp add: split_defs)

end
